theory Spec2Isabelle
  imports Main
begin

section \<open>Thread-safe unique pointer (ts\_memory.h): sequential model\<close>

text \<open>
  The header defines \<^verbatim>\<open>ts::unique_ptr<T, TMutex, TDeleter>\<close>: a \<^verbatim>\<open>std::unique_ptr\<close>
  together with a mutex, two guard classes that hold the mutex for the length of one
  access expression, and two \<^verbatim>\<open>make_unique\<close> helpers.

  Objects live in an explicit store, because guards and move operations refer to the
  mutex of a container by reference: a container is named by the location \<open>cid\<close> it is
  constructed at, and a reference to its mutex is that location. Every member function
  takes the calling thread and the world and returns either a fault or its result with
  the new world.
\<close>

type_synonym addr = nat
type_synonym pointer = "addr option"
type_synonym tid = nat
type_synonym cid = nat

text \<open>
  A \<open>pointer\<close> is \<open>None\<close> for \<^verbatim>\<open>nullptr\<close> and \<open>Some a\<close> for the address of an allocated
  object or array. A call that cannot return a value ends in a \<open>fault\<close>: the calling
  thread waits for a mutex another thread holds (\<open>Blocks\<close>), the program has no defined
  behaviour (\<open>Undefined_behaviour\<close>), or \<^verbatim>\<open>operator new\<close> throws (\<open>Bad_alloc\<close>).
\<close>

datatype fault = Blocks | Undefined_behaviour | Bad_alloc

text \<open>
  \<open>TDeleter\<close>: \<open>Default_delete\<close> is the value-initialised \<^verbatim>\<open>std::default_delete<T>\<close>,
  \<open>Custom_deleter k\<close> a deleter object supplied by the caller. What a deleter does to the
  object is outside the header; its invocation is recorded in the trace.
\<close>

datatype deleter = Default_delete | Custom_deleter nat

datatype event = Acquire tid cid | Release tid cid | Cleanup deleter addr

definition bind_res :: "fault + 'a \<Rightarrow> ('a \<Rightarrow> fault + 'b) \<Rightarrow> fault + 'b" where
  "bind_res r f = (case r of Inl e \<Rightarrow> Inl e | Inr x \<Rightarrow> f x)"

subsection \<open>std::mutex\<close>

text \<open>
  A mutex is free (\<open>None\<close>) or owned by one thread. \<^verbatim>\<open>lock\<close> blocks while another thread
  owns the mutex; calling \<^verbatim>\<open>lock\<close> or \<^verbatim>\<open>try_lock\<close> from the owning thread, and calling
  \<^verbatim>\<open>unlock\<close> from a thread that does not own it, is undefined.
\<close>

type_synonym mutex = "tid option"

definition mutex_lock :: "tid \<Rightarrow> mutex \<Rightarrow> fault + mutex" where
  "mutex_lock t m =
     (case m of
        None \<Rightarrow> Inr (Some t)
      | Some u \<Rightarrow> if u = t then Inl Undefined_behaviour else Inl Blocks)"

definition mutex_try_lock :: "tid \<Rightarrow> mutex \<Rightarrow> fault + (bool \<times> mutex)" where
  "mutex_try_lock t m =
     (case m of
        None \<Rightarrow> Inr (True, Some t)
      | Some u \<Rightarrow> if u = t then Inl Undefined_behaviour else Inr (False, m))"

definition mutex_unlock :: "tid \<Rightarrow> mutex \<Rightarrow> fault + mutex" where
  "mutex_unlock t m = (if m = Some t then Inr None else Inl Undefined_behaviour)"

subsection \<open>std::unique\_ptr\<close>

record std_unique_ptr =
  ptr :: pointer
  del :: deleter

definition std_unique_ptr_default :: std_unique_ptr where
  "std_unique_ptr_default = \<lparr>ptr = None, del = Default_delete\<rparr>"

definition std_unique_ptr_from :: "pointer \<Rightarrow> std_unique_ptr" where
  "std_unique_ptr_from p = \<lparr>ptr = p, del = Default_delete\<rparr>"

definition std_unique_ptr_from_del :: "pointer \<Rightarrow> deleter \<Rightarrow> std_unique_ptr" where
  "std_unique_ptr_from_del p d = \<lparr>ptr = p, del = d\<rparr>"

definition std_get :: "std_unique_ptr \<Rightarrow> pointer" where
  "std_get u = ptr u"

text \<open>\<^verbatim>\<open>release\<close> returns the stored pointer and leaves null behind.\<close>

definition std_release :: "std_unique_ptr \<Rightarrow> pointer \<times> std_unique_ptr" where
  "std_release u = (ptr u, u\<lparr>ptr := None\<rparr>)"

text \<open>
  \<^verbatim>\<open>reset(p)\<close> stores \<open>p\<close> and then, if the old pointer was not null, calls the deleter
  on the old pointer. The calls made are returned as events.
\<close>

definition std_reset :: "pointer \<Rightarrow> std_unique_ptr \<Rightarrow> std_unique_ptr \<times> event list" where
  "std_reset p u =
     (let old_p = ptr u; u' = u\<lparr>ptr := p\<rparr>
      in (u', case old_p of None \<Rightarrow> [] | Some q \<Rightarrow> [Cleanup (del u) q]))"

text \<open>The destructor calls the deleter if and only if the stored pointer is not null.\<close>

definition std_unique_ptr_dtor :: "std_unique_ptr \<Rightarrow> event list" where
  "std_unique_ptr_dtor u = (case ptr u of None \<Rightarrow> [] | Some q \<Rightarrow> [Cleanup (del u) q])"

subsection \<open>The world\<close>

text \<open>
  \<open>unique_ptr\<close> is \<^verbatim>\<open>ts::unique_ptr\<close> with its two data members. The world holds the
  live containers, the heap of allocated arrays (a single object is an array of length
  one), the allocator, and the trace of lock and deleter events.

  Whether \<^verbatim>\<open>operator new\<close> obtains memory is not decided by the header, and nothing is
  assumed about it: \<open>allocator s a n\<close> says whether the request for \<open>n\<close> elements that is
  made when \<open>a\<close> is the next address succeeds. A request for no elements is a request
  like any other and can be refused.
\<close>

record unique_ptr =
  m_mtx :: mutex
  m_value :: std_unique_ptr

record 'v world =
  conts :: "cid \<rightharpoonup> unique_ptr"
  heap :: "addr \<rightharpoonup> 'v list"
  next_addr :: addr
  allocator :: "addr \<Rightarrow> nat \<Rightarrow> bool"
  trace :: "event list"

text \<open>
  \<^verbatim>\<open>lock\<close>, \<^verbatim>\<open>unlock\<close> and \<^verbatim>\<open>try_lock\<close> on the mutex a reference \<open>c\<close> denotes, with the
  event recorded.
\<close>

definition lock_mtx :: "tid \<Rightarrow> cid \<Rightarrow> 'v world \<Rightarrow> fault + 'v world" where
  "lock_mtx t c s =
     (case conts s c of
        None \<Rightarrow> Inl Undefined_behaviour
      | Some u \<Rightarrow>
          bind_res (mutex_lock t (m_mtx u)) (\<lambda>m.
            Inr (s\<lparr>conts := (conts s)(c \<mapsto> u\<lparr>m_mtx := m\<rparr>),
                   trace := trace s @ [Acquire t c]\<rparr>)))"

definition unlock_mtx :: "tid \<Rightarrow> cid \<Rightarrow> 'v world \<Rightarrow> fault + 'v world" where
  "unlock_mtx t c s =
     (case conts s c of
        None \<Rightarrow> Inl Undefined_behaviour
      | Some u \<Rightarrow>
          bind_res (mutex_unlock t (m_mtx u)) (\<lambda>m.
            Inr (s\<lparr>conts := (conts s)(c \<mapsto> u\<lparr>m_mtx := m\<rparr>),
                   trace := trace s @ [Release t c]\<rparr>)))"

definition try_lock_mtx :: "tid \<Rightarrow> cid \<Rightarrow> 'v world \<Rightarrow> fault + (bool \<times> 'v world)" where
  "try_lock_mtx t c s =
     (case conts s c of
        None \<Rightarrow> Inl Undefined_behaviour
      | Some u \<Rightarrow>
          bind_res (mutex_try_lock t (m_mtx u)) (\<lambda>(ok, m).
            if ok then Inr (True, s\<lparr>conts := (conts s)(c \<mapsto> u\<lparr>m_mtx := m\<rparr>),
                                    trace := trace s @ [Acquire t c]\<rparr>)
            else Inr (False, s)))"

subsection \<open>ts::unique\_ptr: lock, unlock, get, constructors\<close>

definition lock :: "tid \<Rightarrow> cid \<Rightarrow> 'v world \<Rightarrow> fault + 'v world" where
  "lock t this s = lock_mtx t this s"

definition unlock :: "tid \<Rightarrow> cid \<Rightarrow> 'v world \<Rightarrow> fault + 'v world" where
  "unlock t this s = unlock_mtx t this s"

text \<open>\<^verbatim>\<open>get() const noexcept { return m_value.get(); }\<close>\<close>

definition get :: "cid \<Rightarrow> 'v world \<Rightarrow> fault + (pointer \<times> 'v world)" where
  "get this s =
     (case conts s this of
        None \<Rightarrow> Inl Undefined_behaviour
      | Some u \<Rightarrow> Inr (std_get (m_value u), s))"

text \<open>
  The constructors build the object at the location \<open>this\<close>, which the caller provides
  as storage that holds no live container.
\<close>

definition unique_ptr_default_ctor :: "cid \<Rightarrow> 'v world \<Rightarrow> 'v world" where
  "unique_ptr_default_ctor this s =
     s\<lparr>conts := (conts s)(this \<mapsto> \<lparr>m_mtx = None, m_value = std_unique_ptr_default\<rparr>)\<rparr>"

definition unique_ptr_ctor :: "cid \<Rightarrow> pointer \<Rightarrow> 'v world \<Rightarrow> 'v world" where
  "unique_ptr_ctor this value_ptr s =
     s\<lparr>conts := (conts s)(this \<mapsto> \<lparr>m_mtx = None, m_value = std_unique_ptr_from value_ptr\<rparr>)\<rparr>"

definition unique_ptr_ctor_del :: "cid \<Rightarrow> pointer \<Rightarrow> deleter \<Rightarrow> 'v world \<Rightarrow> 'v world" where
  "unique_ptr_ctor_del this value_ptr deleter s =
     s\<lparr>conts := (conts s)(this \<mapsto>
          \<lparr>m_mtx = None, m_value = std_unique_ptr_from_del value_ptr deleter\<rparr>)\<rparr>"

subsection \<open>std::scoped\_lock over two mutexes\<close>

text \<open>
  \<^verbatim>\<open>std::scoped_lock lock {m1, m2}\<close> acquires both mutexes with \<^verbatim>\<open>std::lock\<close>. The code of
  \<^verbatim>\<open>std::lock\<close> belongs to the standard library, not to \<^verbatim>\<open>ts_memory.h\<close>. The C++ standard
  (thread.lock.algorithm) fixes that it locks its arguments by a sequence of calls to
  \<^verbatim>\<open>lock\<close>, \<^verbatim>\<open>try_lock\<close> and \<^verbatim>\<open>unlock\<close> that does not deadlock, and names try-and-back-off
  as such an algorithm. The model takes try-and-back-off, as the common implementations
  of the library do for two mutexes: \<^verbatim>\<open>lock\<close> on the first mutex and \<^verbatim>\<open>try_lock\<close> on the
  second; when the second is busy, \<^verbatim>\<open>unlock\<close> the first and start again with \<^verbatim>\<open>lock\<close> on
  the mutex that was busy. Seen
  from the calling thread alone the constructor returns with both mutexes held when
  both are free, and waits otherwise. Passing one mutex twice, or a mutex the calling
  thread already owns, makes the thread lock a mutex it owns, which is undefined. The
  steps of the algorithm under interleaving are modelled further below. The destructor
  unlocks both.
\<close>

definition scoped_lock_ctor :: "tid \<Rightarrow> cid \<Rightarrow> cid \<Rightarrow> 'v world \<Rightarrow> fault + 'v world" where
  "scoped_lock_ctor t m1 m2 s =
     bind_res (lock_mtx t m1 s) (\<lambda>s1.
     bind_res (try_lock_mtx t m2 s1) (\<lambda>(ok, s2).
     if ok then Inr s2 else Inl Blocks))"

definition scoped_lock_dtor :: "tid \<Rightarrow> cid \<Rightarrow> cid \<Rightarrow> 'v world \<Rightarrow> fault + 'v world" where
  "scoped_lock_dtor t m1 m2 s = bind_res (unlock_mtx t m1 s) (unlock_mtx t m2)"

subsection \<open>ts::unique\_ptr: move construction, move assignment, destruction\<close>

text \<open>
  The statement \<^verbatim>\<open>this->m_value = std::move(other.m_value)\<close> shared by the move
  constructor and the move assignment operator. Move assignment of \<^verbatim>\<open>std::unique_ptr\<close>
  is \<^verbatim>\<open>reset(other.release())\<close> followed by the assignment of the deleter of \<open>other\<close>;
  the two objects are read and written in the store in that order, so that the
  statement is also modelled when both names denote one object.
\<close>

definition move_m_value :: "cid \<Rightarrow> cid \<Rightarrow> 'v world \<Rightarrow> fault + 'v world" where
  "move_m_value this other s =
     (case conts s other of
        None \<Rightarrow> Inl Undefined_behaviour
      | Some u \<Rightarrow>
          (let (p, ov) = std_release (m_value u);
               s1 = s\<lparr>conts := (conts s)(other \<mapsto> u\<lparr>m_value := ov\<rparr>)\<rparr>
           in case conts s1 this of
                None \<Rightarrow> Inl Undefined_behaviour
              | Some d \<Rightarrow>
                  (let (dv, evs) = std_reset p (m_value d)
                   in Inr (s1\<lparr>conts := (conts s1)(this \<mapsto> d\<lparr>m_value := dv\<lparr>del := del ov\<rparr>\<rparr>),
                             trace := trace s1 @ evs\<rparr>))))"

text \<open>
  \<^verbatim>\<open>unique_ptr(unique_ptr&& other)\<close>: the members of \<open>this\<close> are default-initialised (a
  fresh mutex, a null \<^verbatim>\<open>m_value\<close>), then the body runs under the scoped lock.
\<close>

definition unique_ptr_move_ctor :: "tid \<Rightarrow> cid \<Rightarrow> cid \<Rightarrow> 'v world \<Rightarrow> fault + 'v world" where
  "unique_ptr_move_ctor t this other s =
     (let s0 = unique_ptr_default_ctor this s
      in bind_res (scoped_lock_ctor t this other s0) (\<lambda>s1.
         bind_res (move_m_value this other s1) (\<lambda>s2.
         scoped_lock_dtor t this other s2)))"

text \<open>\<^verbatim>\<open>operator=(unique_ptr&& other)\<close>\<close>

definition unique_ptr_move_assign :: "tid \<Rightarrow> cid \<Rightarrow> cid \<Rightarrow> 'v world \<Rightarrow> fault + 'v world" where
  "unique_ptr_move_assign t this other s =
     bind_res (scoped_lock_ctor t this other s) (\<lambda>s1.
     bind_res (move_m_value this other s1) (\<lambda>s2.
     scoped_lock_dtor t this other s2))"

text \<open>
  The implicit destructor destroys the members in reverse order of declaration:
  \<^verbatim>\<open>m_value\<close> first, which calls the deleter, then \<^verbatim>\<open>m_mtx\<close>. Destroying a mutex that a
  thread owns is undefined.
\<close>

definition unique_ptr_dtor :: "cid \<Rightarrow> 'v world \<Rightarrow> fault + 'v world" where
  "unique_ptr_dtor this s =
     (case conts s this of
        None \<Rightarrow> Inl Undefined_behaviour
      | Some u \<Rightarrow>
          (let evs = std_unique_ptr_dtor (m_value u)
           in if m_mtx u \<noteq> None then Inl Undefined_behaviour
              else Inr (s\<lparr>conts := (conts s)(this := None), trace := trace s @ evs\<rparr>)))"

subsection \<open>std::unique\_lock and the two guards\<close>

text \<open>
  A \<^verbatim>\<open>std::unique_lock\<close> holds a pointer to a mutex (here the location of the container
  the mutex belongs to) and the flag \<open>owns\<close>. Its move constructor takes both over and
  leaves the source with no mutex and \<open>owns = False\<close>; its destructor unlocks if and
  only if \<open>owns\<close>.
\<close>

record unique_lock =
  pm :: "cid option"
  owns :: bool

definition unique_lock_ctor :: "tid \<Rightarrow> cid \<Rightarrow> 'v world \<Rightarrow> fault + (unique_lock \<times> 'v world)" where
  "unique_lock_ctor t mtx s =
     bind_res (lock_mtx t mtx s) (\<lambda>s'. Inr (\<lparr>pm = Some mtx, owns = True\<rparr>, s'))"

definition unique_lock_move :: "unique_lock \<Rightarrow> unique_lock \<times> unique_lock" where
  "unique_lock_move other = (\<lparr>pm = pm other, owns = owns other\<rparr>, \<lparr>pm = None, owns = False\<rparr>)"

definition unique_lock_dtor :: "tid \<Rightarrow> unique_lock \<Rightarrow> 'v world \<Rightarrow> fault + 'v world" where
  "unique_lock_dtor t l s =
     (if owns l then
        (case pm l of None \<Rightarrow> Inl Undefined_behaviour | Some mtx \<Rightarrow> unlock_mtx t mtx s)
      else Inr s)"

record proxy_locker =
  m_lock :: unique_lock
  m_ptr :: pointer

definition proxy_locker_ctor ::
  "tid \<Rightarrow> cid \<Rightarrow> pointer \<Rightarrow> 'v world \<Rightarrow> fault + (proxy_locker \<times> 'v world)" where
  "proxy_locker_ctor t mtx p s =
     bind_res (unique_lock_ctor t mtx s) (\<lambda>(l, s'). Inr (\<lparr>m_lock = l, m_ptr = p\<rparr>, s'))"

text \<open>
  The defaulted move constructor moves member by member: the lock is taken over, the
  raw pointer is copied. It returns the new guard and the moved-from guard.
\<close>

definition proxy_locker_move :: "proxy_locker \<Rightarrow> proxy_locker \<times> proxy_locker" where
  "proxy_locker_move other =
     (let (l, l0) = unique_lock_move (m_lock other)
      in (\<lparr>m_lock = l, m_ptr = m_ptr other\<rparr>, other\<lparr>m_lock := l0\<rparr>))"

definition proxy_locker_dtor :: "tid \<Rightarrow> proxy_locker \<Rightarrow> 'v world \<Rightarrow> fault + 'v world" where
  "proxy_locker_dtor t g s = unique_lock_dtor t (m_lock g) s"

definition proxy_locker_arrow :: "proxy_locker \<Rightarrow> pointer" where
  "proxy_locker_arrow g = m_ptr g"

record proxy_locker_for_subscript =
  m_lock :: unique_lock
  m_ptr :: pointer

definition proxy_locker_for_subscript_ctor ::
  "tid \<Rightarrow> cid \<Rightarrow> pointer \<Rightarrow> 'v world \<Rightarrow> fault + (proxy_locker_for_subscript \<times> 'v world)" where
  "proxy_locker_for_subscript_ctor t mtx p s =
     bind_res (unique_lock_ctor t mtx s) (\<lambda>(l, s').
       Inr (\<lparr>proxy_locker_for_subscript.m_lock = l, proxy_locker_for_subscript.m_ptr = p\<rparr>, s'))"

definition proxy_locker_for_subscript_move ::
  "proxy_locker_for_subscript \<Rightarrow> proxy_locker_for_subscript \<times> proxy_locker_for_subscript" where
  "proxy_locker_for_subscript_move other =
     (let (l, l0) = unique_lock_move (proxy_locker_for_subscript.m_lock other)
      in (\<lparr>proxy_locker_for_subscript.m_lock = l,
           proxy_locker_for_subscript.m_ptr = proxy_locker_for_subscript.m_ptr other\<rparr>,
          other\<lparr>proxy_locker_for_subscript.m_lock := l0\<rparr>))"

definition proxy_locker_for_subscript_dtor ::
  "tid \<Rightarrow> proxy_locker_for_subscript \<Rightarrow> 'v world \<Rightarrow> fault + 'v world" where
  "proxy_locker_for_subscript_dtor t g s =
     unique_lock_dtor t (proxy_locker_for_subscript.m_lock g) s"

text \<open>\<^verbatim>\<open>operator->() const\<close> and \<^verbatim>\<open>operator*() const\<close> of the container.\<close>

definition arrow :: "tid \<Rightarrow> cid \<Rightarrow> 'v world \<Rightarrow> fault + (proxy_locker \<times> 'v world)" where
  "arrow t this s =
     (case conts s this of
        None \<Rightarrow> Inl Undefined_behaviour
      | Some u \<Rightarrow> proxy_locker_ctor t this (std_get (m_value u)) s)"

definition deref ::
  "tid \<Rightarrow> cid \<Rightarrow> 'v world \<Rightarrow> fault + (proxy_locker_for_subscript \<times> 'v world)" where
  "deref t this s =
     (case conts s this of
        None \<Rightarrow> Inl Undefined_behaviour
      | Some u \<Rightarrow> proxy_locker_for_subscript_ctor t this (std_get (m_value u)) s)"

subsection \<open>Allocation, array elements and make\_unique\<close>

text \<open>
  \<^verbatim>\<open>new T(args...)\<close> and \<^verbatim>\<open>new T[n]\<close> throw \<^verbatim>\<open>std::bad_alloc\<close> when the allocator refuses
  the request, for every \<open>n\<close>, zero included; otherwise they take the next address,
  which is never null. \<open>v\<close> is the object the constructor of \<open>T\<close> builds from the
  arguments, \<open>dflt\<close> a default-initialised element.
\<close>

definition new_object :: "'v \<Rightarrow> 'v world \<Rightarrow> fault + (pointer \<times> 'v world)" where
  "new_object v s =
     (if allocator s (next_addr s) 1
      then Inr (Some (next_addr s),
                s\<lparr>heap := (heap s)(next_addr s \<mapsto> [v]), next_addr := Suc (next_addr s)\<rparr>)
      else Inl Bad_alloc)"

definition new_array :: "nat \<Rightarrow> 'v \<Rightarrow> 'v world \<Rightarrow> fault + (pointer \<times> 'v world)" where
  "new_array n dflt s =
     (if allocator s (next_addr s) n
      then Inr (Some (next_addr s),
                s\<lparr>heap := (heap s)(next_addr s \<mapsto> replicate n dflt),
                  next_addr := Suc (next_addr s)\<rparr>)
      else Inl Bad_alloc)"

definition make_unique :: "cid \<Rightarrow> 'v \<Rightarrow> 'v world \<Rightarrow> fault + 'v world" where
  "make_unique result v s =
     bind_res (new_object v s) (\<lambda>(p, s'). Inr (unique_ptr_ctor result p s'))"

definition make_unique_array :: "cid \<Rightarrow> nat \<Rightarrow> 'v \<Rightarrow> 'v world \<Rightarrow> fault + 'v world" where
  "make_unique_array result n dflt s =
     bind_res (new_array n dflt s) (\<lambda>(p, s'). Inr (unique_ptr_ctor result p s'))"

text \<open>
  The built-in subscript \<^verbatim>\<open>p[index]\<close> on a raw pointer designates the element at offset
  \<open>index\<close> of the array \<open>p\<close> points to. It is defined only for a non-null pointer to a
  live array and an offset inside it. A reference to an element is the array's address
  with the offset.
\<close>

type_synonym elem_ref = "addr \<times> nat"

definition ptr_index :: "pointer \<Rightarrow> int \<Rightarrow> 'v world \<Rightarrow> fault + elem_ref" where
  "ptr_index p index s =
     (case p of
        None \<Rightarrow> Inl Undefined_behaviour
      | Some a \<Rightarrow>
          (case heap s a of
             None \<Rightarrow> Inl Undefined_behaviour
           | Some xs \<Rightarrow>
               if 0 \<le> index \<and> index < int (length xs) then Inr (a, nat index)
               else Inl Undefined_behaviour))"

definition read_ref :: "elem_ref \<Rightarrow> 'v world \<Rightarrow> fault + 'v" where
  "read_ref r s =
     (case heap s (fst r) of
        None \<Rightarrow> Inl Undefined_behaviour
      | Some xs \<Rightarrow> if snd r < length xs then Inr (xs ! snd r) else Inl Undefined_behaviour)"

definition write_ref :: "elem_ref \<Rightarrow> 'v \<Rightarrow> 'v world \<Rightarrow> fault + 'v world" where
  "write_ref r v s =
     (case heap s (fst r) of
        None \<Rightarrow> Inl Undefined_behaviour
      | Some xs \<Rightarrow>
          if snd r < length xs then Inr (s\<lparr>heap := (heap s)(fst r \<mapsto> xs[snd r := v])\<rparr>)
          else Inl Undefined_behaviour)"

text \<open>\<^verbatim>\<open>operator[](TIndex index) noexcept { return m_ptr[index]; }\<close>\<close>

definition subscript :: "proxy_locker_for_subscript \<Rightarrow> int \<Rightarrow> 'v world \<Rightarrow> fault + elem_ref" where
  "subscript g index s = ptr_index (proxy_locker_for_subscript.m_ptr g) index s"

text \<open>
  The two full expressions of the header's array example, \<^verbatim>\<open>(*ptr)[index] = v;\<close> and
  \<^verbatim>\<open>auto val = (*ptr)[index];\<close>: the guard is created, the element is designated and
  written or read, and the guard is destroyed at the end of the expression.
\<close>

definition subscript_assign :: "tid \<Rightarrow> cid \<Rightarrow> int \<Rightarrow> 'v \<Rightarrow> 'v world \<Rightarrow> fault + 'v world" where
  "subscript_assign t this index v s =
     bind_res (deref t this s) (\<lambda>(g, s1).
     bind_res (subscript g index s1) (\<lambda>r.
     bind_res (write_ref r v s1) (\<lambda>s2.
     proxy_locker_for_subscript_dtor t g s2)))"

definition subscript_read :: "tid \<Rightarrow> cid \<Rightarrow> int \<Rightarrow> 'v world \<Rightarrow> fault + ('v \<times> 'v world)" where
  "subscript_read t this index s =
     bind_res (deref t this s) (\<lambda>(g, s1).
     bind_res (subscript g index s1) (\<lambda>r.
     bind_res (read_ref r s1) (\<lambda>v.
     bind_res (proxy_locker_for_subscript_dtor t g s1) (\<lambda>s2.
     Inr (v, s2)))))"

text \<open>
  The loop of the example, \<^verbatim>\<open>for (i = first; i < first + n; ++i) (*ptr)[i] = vs[i - first];\<close>
\<close>

fun write_all :: "tid \<Rightarrow> cid \<Rightarrow> int \<Rightarrow> 'v list \<Rightarrow> 'v world \<Rightarrow> fault + 'v world" where
  "write_all t this i [] s = Inr s"
| "write_all t this i (v # vs) s =
     bind_res (subscript_assign t this i v s) (write_all t this (i + 1) vs)"

section \<open>Concurrent moves: the two-mutex acquisition step by step\<close>

text \<open>
  With several threads the constructor of \<^verbatim>\<open>std::scoped_lock\<close> is not one step. It calls
  \<^verbatim>\<open>std::lock(this->m_mtx, other.m_mtx)\<close>, modelled as above by try-and-back-off: \<^verbatim>\<open>lock\<close>
  one mutex, \<^verbatim>\<open>try_lock\<close> the second, and when that fails \<^verbatim>\<open>unlock\<close> the first and start
  again from the mutex that was busy. What the move operations themselves contribute
  is the one statement that hands both mutexes to one \<^verbatim>\<open>std::scoped_lock\<close>, the transfer
  under it, and the release of both at the end of the scope. A thread running a move
  operation is at one of the following points; every step is one call on one mutex, or
  the transfer \<^verbatim>\<open>this->m_value = std::move(other.m_value)\<close>.
\<close>

datatype which = This_mtx | Other_mtx

datatype pc =
    Init_members
  | Lock_first which
  | Try_second which
  | Back_off which
  | Transfer
  | Unlock_this
  | Unlock_other
  | Returned

text \<open>
  A thread runs the move constructor when it starts at \<open>Init_members\<close> (the members of
  the new object are default-initialised first) and the move assignment operator when
  it starts at \<open>Lock_first This_mtx\<close>.
\<close>

record thread =
  th_id :: tid
  th_this :: cid
  th_other :: cid
  th_pc :: pc

fun the_other :: "which \<Rightarrow> which" where
  "the_other This_mtx = Other_mtx"
| "the_other Other_mtx = This_mtx"

fun mtx_of :: "which \<Rightarrow> thread \<Rightarrow> cid" where
  "mtx_of This_mtx th = th_this th"
| "mtx_of Other_mtx th = th_other th"

text \<open>
  One step of a thread. \<open>Inl Blocks\<close> says the thread cannot move in this world (it
  waits inside \<^verbatim>\<open>lock\<close>); a thread that has returned has no step left, and the
  scheduler below does not pick it.
\<close>

definition thread_step :: "thread \<Rightarrow> 'v world \<Rightarrow> fault + (pc \<times> 'v world)" where
  "thread_step th s =
     (case th_pc th of
        Init_members \<Rightarrow> Inr (Lock_first This_mtx, unique_ptr_default_ctor (th_this th) s)
      | Lock_first w \<Rightarrow>
          bind_res (lock_mtx (th_id th) (mtx_of w th) s) (\<lambda>s'. Inr (Try_second w, s'))
      | Try_second w \<Rightarrow>
          bind_res (try_lock_mtx (th_id th) (mtx_of (the_other w) th) s) (\<lambda>(ok, s').
            Inr (if ok then Transfer else Back_off w, s'))
      | Back_off w \<Rightarrow>
          bind_res (unlock_mtx (th_id th) (mtx_of w th) s) (\<lambda>s'.
            Inr (Lock_first (the_other w), s'))
      | Transfer \<Rightarrow>
          bind_res (move_m_value (th_this th) (th_other th) s) (\<lambda>s'. Inr (Unlock_this, s'))
      | Unlock_this \<Rightarrow>
          bind_res (unlock_mtx (th_id th) (th_this th) s) (\<lambda>s'. Inr (Unlock_other, s'))
      | Unlock_other \<Rightarrow>
          bind_res (unlock_mtx (th_id th) (th_other th) s) (\<lambda>s'. Inr (Returned, s'))
      | Returned \<Rightarrow> Inr (Returned, s))"

text \<open>A thread on its own: \<open>n\<close> steps in a row, stopping at the first fault.\<close>

fun run_thread :: "nat \<Rightarrow> thread \<Rightarrow> 'v world \<Rightarrow> fault + (pc \<times> 'v world)" where
  "run_thread 0 th s = Inr (th_pc th, s)"
| "run_thread (Suc n) th s =
     bind_res (thread_step th s) (\<lambda>(pc', s'). run_thread n (th\<lparr>th_pc := pc'\<rparr>) s')"

text \<open>
  The system is the shared world with the list of threads. In one step of the system
  any thread that has not returned and can move takes its step.
\<close>

type_synonym 'v sys = "'v world \<times> thread list"

inductive sys_step :: "'v sys \<Rightarrow> 'v sys \<Rightarrow> bool" where
  step_thread:
    "i < length thrs \<Longrightarrow> th_pc (thrs ! i) \<noteq> Returned \<Longrightarrow>
     thread_step (thrs ! i) s = Inr (pc', s') \<Longrightarrow>
     sys_step (s, thrs) (s', thrs[i := (thrs ! i)\<lparr>th_pc := pc'\<rparr>])"

text \<open>
  A system is deadlocked when some thread has not returned and every such thread
  waits. It is undefined when the next step of some thread is.
\<close>

definition deadlocked :: "'v sys \<Rightarrow> bool" where
  "deadlocked x =
     (case x of (s, thrs) \<Rightarrow>
        list_ex (\<lambda>th. th_pc th \<noteq> Returned) thrs
        \<and> list_all (\<lambda>th. th_pc th = Returned \<or> thread_step th s = Inl Blocks) thrs)"

definition undefined_next :: "'v sys \<Rightarrow> bool" where
  "undefined_next x =
     (case x of (s, thrs) \<Rightarrow> list_ex (\<lambda>th. thread_step th s = Inl Undefined_behaviour) thrs)"

text \<open>The owner of the mutex of a container, and the live containers.\<close>

definition owner :: "'v world \<Rightarrow> cid \<Rightarrow> tid option" where
  "owner s c = (case conts s c of None \<Rightarrow> None | Some u \<Rightarrow> m_mtx u)"

definition live :: "'v world \<Rightarrow> cid set" where
  "live s = dom (conts s)"

text \<open>
  The start of a run: thread ids are distinct, no mutex of a container that takes part
  is held, every thread moves between two different containers, the source is live,
  the destination of an assignment is live, and the destinations of the move
  constructors are storage that is not live and not shared. A move of a container into
  itself hands one mutex twice to \<^verbatim>\<open>std::scoped_lock\<close>, which is undefined (lemma
  \<open>self_move_undefined\<close> below); such a thread is not part of a start.
\<close>

definition initial :: "'v sys \<Rightarrow> bool" where
  "initial x =
     (case x of (s, thrs) \<Rightarrow>
        distinct (map th_id thrs)
        \<and> list_all (\<lambda>c. owner s c = None) (map th_this thrs @ map th_other thrs)
        \<and> list_all (\<lambda>th. th_this th \<noteq> th_other th \<and> th_other th \<in> live s
              \<and> (if th_this th \<in> live s then th_pc th = Lock_first This_mtx
                  else th_pc th = Init_members)) thrs
        \<and> distinct (map th_this (filter (\<lambda>th. th_pc th = Init_members) thrs)))"

text \<open>The mutexes a thread holds at each point of its run.\<close>

definition holds :: "thread \<Rightarrow> cid set" where
  "holds th =
     (case th_pc th of
        Init_members \<Rightarrow> {}
      | Lock_first w \<Rightarrow> {}
      | Try_second w \<Rightarrow> {mtx_of w th}
      | Back_off w \<Rightarrow> {mtx_of w th}
      | Transfer \<Rightarrow> {th_this th, th_other th}
      | Unlock_this \<Rightarrow> {th_this th, th_other th}
      | Unlock_other \<Rightarrow> {th_other th}
      | Returned \<Rightarrow> {})"

text \<open>
  The invariant of a run: what \<open>initial\<close> says about the threads, and that the mutex
  of a container that takes part is owned by a thread exactly when that thread holds it
  at its point of the run.
\<close>

definition thread_ok :: "'v world \<Rightarrow> thread \<Rightarrow> bool" where
  "thread_ok s th =
     (th_this th \<noteq> th_other th \<and> th_other th \<in> live s
      \<and> (th_this th \<in> live s) = (th_pc th \<noteq> Init_members)
      \<and> (\<forall>c \<in> {th_this th, th_other th}. (owner s c = Some (th_id th)) = (c \<in> holds th)))"

definition inv :: "'v sys \<Rightarrow> bool" where
  "inv x =
     (case x of (s, thrs) \<Rightarrow>
        distinct (map th_id thrs)
        \<and> (\<forall>i<length thrs. thread_ok s (thrs ! i))
        \<and> (\<forall>i<length thrs. \<forall>j<length thrs. i \<noteq> j \<longrightarrow>
              th_pc (thrs ! i) = Init_members \<longrightarrow> th_pc (thrs ! j) = Init_members \<longrightarrow>
              th_this (thrs ! i) \<noteq> th_this (thrs ! j))
        \<and> (\<forall>i<length thrs. \<forall>c t. c \<in> {th_this (thrs ! i), th_other (thrs ! i)} \<longrightarrow>
              owner s c = Some t \<longrightarrow>
              (\<exists>j<length thrs. th_id (thrs ! j) = t \<and> c \<in> holds (thrs ! j))))"

text \<open>
  A schedule is the list of the threads, by their index, that take the next steps. It
  runs as long as the chosen thread has not returned and can move.
\<close>

definition sched_step :: "nat \<Rightarrow> 'v sys \<Rightarrow> 'v sys option" where
  "sched_step i x =
     (case x of (s, thrs) \<Rightarrow>
        if i < length thrs \<and> th_pc (thrs ! i) \<noteq> Returned then
          (case thread_step (thrs ! i) s of
             Inr (pc', s') \<Rightarrow> Some (s', thrs[i := (thrs ! i)\<lparr>th_pc := pc'\<rparr>])
           | Inl e \<Rightarrow> None)
        else None)"

fun run_schedule :: "nat list \<Rightarrow> 'v sys \<Rightarrow> 'v sys option" where
  "run_schedule [] x = Some x"
| "run_schedule (i # sch) x =
     (case sched_step i x of None \<Rightarrow> None | Some y \<Rightarrow> run_schedule sch y)"

definition all_returned :: "'v sys \<Rightarrow> bool" where
  "all_returned x = list_all (\<lambda>th. th_pc th = Returned) (snd x)"

text \<open>
  The operation of the sequential model that a thread at its start is about to run,
  and the threads of a list running their operations one after the other, each from
  entry to return.
\<close>

definition seq_move :: "thread \<Rightarrow> 'v world \<Rightarrow> fault + 'v world" where
  "seq_move th s =
     (case th_pc th of
        Init_members \<Rightarrow> unique_ptr_move_ctor (th_id th) (th_this th) (th_other th) s
      | _ \<Rightarrow> unique_ptr_move_assign (th_id th) (th_this th) (th_other th) s)"

fun serial :: "thread list \<Rightarrow> 'v world \<Rightarrow> fault + 'v world" where
  "serial [] s = Inr s"
| "serial (th # ths) s = bind_res (seq_move th s) (serial ths)"

text \<open>
  Measures for the proof that every run can be completed: the number of threads that
  have not returned, and for a thread that holds a mutex the number of steps it is at
  most away from holding none.
\<close>

definition unfinished :: "thread list \<Rightarrow> nat" where
  "unfinished thrs = sum_list (map (\<lambda>th. if th_pc th = Returned then 0 else 1) thrs)"

fun hold_rank :: "pc \<Rightarrow> nat" where
  "hold_rank (Try_second w) = 4"
| "hold_rank Transfer = 3"
| "hold_rank Unlock_this = 2"
| "hold_rank Unlock_other = 1"
| "hold_rank (Back_off w) = 1"
| "hold_rank Init_members = 0"
| "hold_rank (Lock_first w) = 0"
| "hold_rank Returned = 0"

definition hold_sum :: "thread list \<Rightarrow> nat" where
  "hold_sum thrs = sum_list (map (\<lambda>th. hold_rank (th_pc th)) thrs)"

fun solo_rank :: "pc \<Rightarrow> nat" where
  "solo_rank Init_members = 6"
| "solo_rank (Back_off w) = 6"
| "solo_rank (Lock_first w) = 5"
| "solo_rank (Try_second w) = 4"
| "solo_rank Transfer = 3"
| "solo_rank Unlock_this = 2"
| "solo_rank Unlock_other = 1"
| "solo_rank Returned = 0"

text \<open>
  For the comparison of a concurrent run with the move operations run one after the
  other: the values of the containers without their mutexes; the points of a run after
  the transfer, and those between the initialisation of the members and the transfer;
  the destinations of the move constructors that are built but not yet assigned; the
  threads of a state being those of the start, further on in their runs; and the
  relation between a reachable state and the serial run of the threads, listed in \<open>p\<close>
  by their index, that have made their transfer.
\<close>

definition vals :: "'v world \<Rightarrow> cid \<Rightarrow> std_unique_ptr option" where
  "vals s c = map_option m_value (conts s c)"

fun past :: "pc \<Rightarrow> bool" where
  "past Unlock_this = True"
| "past Unlock_other = True"
| "past Returned = True"
| "past _ = False"

fun mid :: "pc \<Rightarrow> bool" where
  "mid (Lock_first w) = True"
| "mid (Try_second w) = True"
| "mid (Back_off w) = True"
| "mid Transfer = True"
| "mid _ = False"

definition pending :: "thread list \<Rightarrow> thread list \<Rightarrow> cid \<Rightarrow> bool" where
  "pending thrs0 thrs c =
     (\<exists>i<length thrs. th_pc (thrs0 ! i) = Init_members \<and> th_this (thrs ! i) = c
        \<and> mid (th_pc (thrs ! i)))"

definition same_threads :: "thread list \<Rightarrow> thread list \<Rightarrow> bool" where
  "same_threads thrs0 thrs =
     (length thrs = length thrs0
      \<and> (\<forall>i<length thrs. th_id (thrs ! i) = th_id (thrs0 ! i)
            \<and> th_this (thrs ! i) = th_this (thrs0 ! i)
            \<and> th_other (thrs ! i) = th_other (thrs0 ! i)
            \<and> (th_pc (thrs ! i) = Init_members \<longrightarrow> th_pc (thrs0 ! i) = Init_members)))"

definition serial_inv :: "'v sys \<Rightarrow> 'v sys \<Rightarrow> nat list \<Rightarrow> 'v world \<Rightarrow> bool" where
  "serial_inv x0 x p t =
     (case x0 of (s0, thrs0) \<Rightarrow> case x of (s, thrs) \<Rightarrow>
        same_threads thrs0 thrs
        \<and> distinct p \<and> set p = {i. i < length thrs \<and> past (th_pc (thrs ! i))}
        \<and> serial (map (\<lambda>i. thrs0 ! i) p) s0 = Inr t
        \<and> heap t = heap s
        \<and> (\<forall>c. \<not> pending thrs0 thrs c \<longrightarrow> vals s c = vals t c)
        \<and> (\<forall>c. pending thrs0 thrs c \<longrightarrow> conts t c = None)
        \<and> (\<forall>i<length thrs. owner t (th_this (thrs ! i)) = None \<and> owner t (th_other (thrs ! i)) = None)
        \<and> (\<forall>c. (\<forall>i<length thrs. c \<noteq> th_this (thrs ! i) \<and> c \<noteq> th_other (thrs ! i))
              \<longrightarrow> conts s c = conts t c))"

section \<open>Example worlds\<close>

text \<open>
  Two containers built with the constructors of the model: container 10 owns address 7
  with the default deleter, container 20 owns address 8 with a custom deleter.
\<close>

definition empty_world :: "nat world" where
  "empty_world =
     \<lparr>conts = Map.empty, heap = Map.empty, next_addr = 1, allocator = (\<lambda>a n. n \<le> 16),
      trace = []\<rparr>"

text \<open>The same world with an allocator that refuses every request.\<close>

definition no_memory :: "nat world" where
  "no_memory = empty_world\<lparr>allocator := (\<lambda>a n. False)\<rparr>"

definition two_containers :: "nat world" where
  "two_containers = unique_ptr_ctor_del 20 (Some 8) (Custom_deleter 5) (unique_ptr_ctor 10 (Some 7) empty_world)"

text \<open>
  Two threads move in opposite directions between the two containers: thread 5 runs
  \<^verbatim>\<open>c20 = std::move(c10)\<close> and thread 6 runs \<^verbatim>\<open>c10 = std::move(c20)\<close>. In \<open>crossed\<close>
  each thread has locked the mutex of its own destination and is about to try the
  other one.
\<close>

definition reverse_moves :: "nat sys" where
  "reverse_moves =
     (two_containers,
      [\<lparr>th_id = 5, th_this = 20, th_other = 10, th_pc = Lock_first This_mtx\<rparr>,
       \<lparr>th_id = 6, th_this = 10, th_other = 20, th_pc = Lock_first This_mtx\<rparr>])"

definition crossed :: "nat sys" where
  "crossed =
     (two_containers
        \<lparr>conts := (conts two_containers)
           (20 \<mapsto> \<lparr>m_mtx = Some 5, m_value = \<lparr>ptr = Some 8, del = Custom_deleter 5\<rparr>\<rparr>,
            10 \<mapsto> \<lparr>m_mtx = Some 6, m_value = \<lparr>ptr = Some 7, del = Default_delete\<rparr>\<rparr>),
         trace := [Acquire 5 20, Acquire 6 10]\<rparr>,
      [\<lparr>th_id = 5, th_this = 20, th_other = 10, th_pc = Try_second This_mtx\<rparr>,
       \<lparr>th_id = 6, th_this = 10, th_other = 20, th_pc = Try_second This_mtx\<rparr>])"

text \<open>
  The world of \<open>crossed\<close> with both threads inside a blocking \<open>lock\<close> on the second
  mutex while they hold the first: the point two blocking acquisitions in a row would
  reach.
\<close>

definition hold_and_wait :: "nat sys" where
  "hold_and_wait =
     (fst crossed,
      [\<lparr>th_id = 5, th_this = 20, th_other = 10, th_pc = Lock_first Other_mtx\<rparr>,
       \<lparr>th_id = 6, th_this = 10, th_other = 20, th_pc = Lock_first Other_mtx\<rparr>])"

text \<open>
  The state at the end of one complete run from \<open>crossed\<close>: thread 5 fails to get the
  second mutex and backs off, thread 6 gets both and moves, then thread 5 gets both and
  moves back. Address 7, which container 10 owned, has been cleaned up once.
\<close>

definition completed :: "nat sys" where
  "completed =
     (two_containers
        \<lparr>conts := (conts two_containers)
           (20 \<mapsto> \<lparr>m_mtx = None, m_value = \<lparr>ptr = Some 8, del = Custom_deleter 5\<rparr>\<rparr>,
            10 \<mapsto> \<lparr>m_mtx = None, m_value = \<lparr>ptr = None, del = Custom_deleter 5\<rparr>\<rparr>),
         trace := [Acquire 5 20, Acquire 6 10, Release 5 20, Acquire 6 20,
           Cleanup Default_delete 7, Release 6 10, Release 6 20, Acquire 5 10,
           Acquire 5 20, Release 5 20, Release 5 10]\<rparr>,
      [\<lparr>th_id = 5, th_this = 20, th_other = 10, th_pc = Returned\<rparr>,
       \<lparr>th_id = 6, th_this = 10, th_other = 20, th_pc = Returned\<rparr>])"

text \<open>A world with one array of three elements at address 4.\<close>

definition array_world :: "nat world" where
  "array_world = empty_world\<lparr>heap := [4 \<mapsto> [11, 12, 13]]\<rparr>"

section \<open>Basic facts\<close>

lemma bind_res_Inr [simp]: "bind_res (Inr x) f = f x"
  by (simp add: bind_res_def)

lemma bind_res_Inl [simp]: "bind_res (Inl e) f = Inl e"
  by (simp add: bind_res_def)

lemma unique_ptr_upd_mtx: "(u::unique_ptr)\<lparr>m_mtx := m\<rparr> = \<lparr>m_mtx = m, m_value = m_value u\<rparr>"
  by (cases u) simp

lemma unique_ptr_upd_value: "(u::unique_ptr)\<lparr>m_value := v\<rparr> = \<lparr>m_mtx = m_mtx u, m_value = v\<rparr>"
  by (cases u) simp

lemma std_unique_ptr_upd_ptr: "(v::std_unique_ptr)\<lparr>ptr := p\<rparr> = \<lparr>ptr = p, del = del v\<rparr>"
  by (cases v) simp

lemma std_unique_ptr_upd_del: "(v::std_unique_ptr)\<lparr>del := d\<rparr> = \<lparr>ptr = ptr v, del = d\<rparr>"
  by (cases v) simp

lemmas upd_simps = unique_ptr_upd_mtx unique_ptr_upd_value std_unique_ptr_upd_ptr std_unique_ptr_upd_del

lemma lock_mtx_unfold:
  "lock_mtx t c s =
     (case conts s c of
        None \<Rightarrow> Inl Undefined_behaviour
      | Some u \<Rightarrow>
          (case m_mtx u of
             None \<Rightarrow> Inr (s\<lparr>conts := (conts s)(c \<mapsto> u\<lparr>m_mtx := Some t\<rparr>),
                             trace := trace s @ [Acquire t c]\<rparr>)
           | Some t' \<Rightarrow> if t' = t then Inl Undefined_behaviour else Inl Blocks))"
  by (simp add: lock_mtx_def mutex_lock_def split: option.splits)

lemma unlock_mtx_unfold:
  "unlock_mtx t c s =
     (case conts s c of
        None \<Rightarrow> Inl Undefined_behaviour
      | Some u \<Rightarrow>
          if m_mtx u = Some t
          then Inr (s\<lparr>conts := (conts s)(c \<mapsto> u\<lparr>m_mtx := None\<rparr>),
                      trace := trace s @ [Release t c]\<rparr>)
          else Inl Undefined_behaviour)"
  by (simp add: unlock_mtx_def mutex_unlock_def split: option.splits)

lemma try_lock_mtx_unfold:
  "try_lock_mtx t c s =
     (case conts s c of
        None \<Rightarrow> Inl Undefined_behaviour
      | Some u \<Rightarrow>
          (case m_mtx u of
             None \<Rightarrow> Inr (True, s\<lparr>conts := (conts s)(c \<mapsto> u\<lparr>m_mtx := Some t\<rparr>),
                             trace := trace s @ [Acquire t c]\<rparr>)
           | Some t' \<Rightarrow> if t' = t then Inl Undefined_behaviour else Inr (False, s)))"
  by (simp add: try_lock_mtx_def mutex_try_lock_def split: option.splits)

lemma two_containers_A: "conts two_containers 10 = Some \<lparr>m_mtx = None, m_value = \<lparr>ptr = Some 7, del = Default_delete\<rparr>\<rparr>"
  by (simp add: two_containers_def empty_world_def unique_ptr_ctor_def unique_ptr_ctor_del_def
      std_unique_ptr_from_def std_unique_ptr_from_del_def)

lemma two_containers_B: "conts two_containers 20 = Some \<lparr>m_mtx = None, m_value = \<lparr>ptr = Some 8, del = Custom_deleter 5\<rparr>\<rparr>"
  by (simp add: two_containers_def empty_world_def unique_ptr_ctor_def unique_ptr_ctor_del_def
      std_unique_ptr_from_def std_unique_ptr_from_del_def)

lemma two_containers_trace: "trace two_containers = []"
  by (simp add: two_containers_def empty_world_def unique_ptr_ctor_def unique_ptr_ctor_del_def)

section \<open>Properties of the sequential model\<close>

text \<open>
  C2. For every non-null raw pointer \<open>P\<close>, constructing a container from \<open>P\<close>, locking it
  and calling \<open>get\<close> returns exactly \<open>P\<close>; the lock is held by the caller at that point,
  and neither the heap (the object \<open>P\<close> points to) nor the stored pointer has changed.
\<close>

theorem construct_lock_get_returns_pointer:
  "\<exists>s1. lock t c (unique_ptr_ctor c (Some P) s) = Inr s1
      \<and> get c s1 = Inr (Some P, s1)
      \<and> heap s1 = heap s
      \<and> (\<exists>u. conts s1 c = Some u \<and> m_mtx u = Some t)
      \<and> (\<exists>s2. unlock t c s1 = Inr s2 \<and> get c s2 = Inr (Some P, s2) \<and> heap s2 = heap s)"
  by (simp add: lock_def unlock_def lock_mtx_def unlock_mtx_def unique_ptr_ctor_def get_def
      mutex_lock_def mutex_unlock_def std_get_def std_unique_ptr_from_def)

text \<open>
  C5. Constructing a container from a null raw pointer raises no fault (the constructor
  is total) and gives a live container whose \<open>get\<close> returns null; the default
  constructor gives the same state.
\<close>

theorem construct_null_is_empty:
  "get c (unique_ptr_ctor c None s) = Inr (None, unique_ptr_ctor c None s)
   \<and> unique_ptr_default_ctor c s = unique_ptr_ctor c None s
   \<and> get c (unique_ptr_default_ctor c s) = Inr (None, unique_ptr_default_ctor c s)"
  by (simp add: unique_ptr_ctor_def unique_ptr_default_ctor_def get_def std_get_def
      std_unique_ptr_from_def std_unique_ptr_default_def)

lemma move_assign_result:
  assumes "this \<noteq> other" "conts s this = Some d" "conts s other = Some u"
      "m_mtx d = None" "m_mtx u = None"
  shows "unique_ptr_move_assign t this other s =
     Inr (s\<lparr>conts := (conts s)
            (this \<mapsto> \<lparr>m_mtx = None, m_value = \<lparr>ptr = ptr (m_value u), del = del (m_value u)\<rparr>\<rparr>,
             other \<mapsto> \<lparr>m_mtx = None, m_value = \<lparr>ptr = None, del = del (m_value u)\<rparr>\<rparr>),
          trace := trace s @ [Acquire t this, Acquire t other]
             @ (case ptr (m_value d) of None \<Rightarrow> [] | Some q \<Rightarrow> [Cleanup (del (m_value d)) q])
             @ [Release t this, Release t other]\<rparr>)"
  using assms
  by (simp add: unique_ptr_move_assign_def scoped_lock_ctor_def scoped_lock_dtor_def
      move_m_value_def lock_mtx_def unlock_mtx_def try_lock_mtx_def
      mutex_lock_def mutex_unlock_def mutex_try_lock_def
      std_release_def std_reset_def Let_def fun_upd_twist upd_simps
      split: option.splits)

lemma move_ctor_result:
  assumes "this \<noteq> other" "conts s other = Some u" "m_mtx u = None"
  shows "unique_ptr_move_ctor t this other s =
     Inr (s\<lparr>conts := (conts s)
            (this \<mapsto> \<lparr>m_mtx = None, m_value = \<lparr>ptr = ptr (m_value u), del = del (m_value u)\<rparr>\<rparr>,
             other \<mapsto> \<lparr>m_mtx = None, m_value = \<lparr>ptr = None, del = del (m_value u)\<rparr>\<rparr>),
          trace := trace s @ [Acquire t this, Acquire t other, Release t this, Release t other]\<rparr>)"
  using assms
  by (simp add: unique_ptr_move_ctor_def unique_ptr_default_ctor_def std_unique_ptr_default_def
      scoped_lock_ctor_def scoped_lock_dtor_def
      move_m_value_def lock_mtx_def unlock_mtx_def try_lock_mtx_def
      mutex_lock_def mutex_unlock_def mutex_try_lock_def
      std_release_def std_reset_def Let_def fun_upd_twist upd_simps
      split: option.splits)

lemma move_assign_returns_only_if:
  assumes "unique_ptr_move_assign t this other s = Inr s'"
  shows "this \<noteq> other \<and> (\<exists>d u. conts s this = Some d \<and> conts s other = Some u
            \<and> m_mtx d = None \<and> m_mtx u = None)"
  using assms
  by (auto simp: unique_ptr_move_assign_def scoped_lock_ctor_def lock_mtx_unfold
      try_lock_mtx_unfold bind_res_def split: option.splits if_splits sum.splits)

lemma move_ctor_returns_only_if:
  assumes "unique_ptr_move_ctor t this other s = Inr s'"
  shows "this \<noteq> other \<and> (\<exists>u. conts s other = Some u \<and> m_mtx u = None)"
  using assms
  by (auto simp: unique_ptr_move_ctor_def unique_ptr_default_ctor_def scoped_lock_ctor_def
      lock_mtx_unfold try_lock_mtx_unfold bind_res_def split: option.splits if_splits sum.splits)

text \<open>
  C1. When the move constructor or the move assignment operator returns, \<open>get\<close> on the
  source returns null and \<open>get\<close> on the destination returns the pointer the source
  held before. Both return whenever source and destination are different containers
  whose locks are free.
\<close>

theorem move_leaves_source_null:
  "(unique_ptr_move_ctor t this other s = Inr s' \<and> conts s other = Some u \<longrightarrow>
      get other s' = Inr (None, s') \<and> get this s' = Inr (ptr (m_value u), s'))
 \<and> (unique_ptr_move_assign t this other s = Inr s' \<and> conts s other = Some u \<longrightarrow>
      get other s' = Inr (None, s') \<and> get this s' = Inr (ptr (m_value u), s'))
 \<and> (this \<noteq> other \<and> conts s other = Some u \<and> m_mtx u = None \<longrightarrow>
      (\<exists>s1. unique_ptr_move_ctor t this other s = Inr s1))
 \<and> (this \<noteq> other \<and> conts s other = Some u \<and> m_mtx u = None
      \<and> conts s this = Some d \<and> m_mtx d = None \<longrightarrow>
      (\<exists>s1. unique_ptr_move_assign t this other s = Inr s1))"
proof (intro conjI impI)
  assume a: "unique_ptr_move_ctor t this other s = Inr s' \<and> conts s other = Some u"
  with move_ctor_returns_only_if [of t this other s s']
  have pre: "this \<noteq> other" "conts s other = Some u" "m_mtx u = None" by auto
  from a move_ctor_result [OF pre, of t]
  have s': "s' = s\<lparr>conts := (conts s)
            (this \<mapsto> \<lparr>m_mtx = None, m_value = \<lparr>ptr = ptr (m_value u), del = del (m_value u)\<rparr>\<rparr>,
             other \<mapsto> \<lparr>m_mtx = None, m_value = \<lparr>ptr = None, del = del (m_value u)\<rparr>\<rparr>),
          trace := trace s @ [Acquire t this, Acquire t other, Release t this, Release t other]\<rparr>"
    by simp
  show "get other s' = Inr (None, s')" by (simp add: s' get_def std_get_def)
  show "get this s' = Inr (ptr (m_value u), s')"
    using pre(1) by (simp add: s' get_def std_get_def)
next
  assume a: "unique_ptr_move_assign t this other s = Inr s' \<and> conts s other = Some u"
  with move_assign_returns_only_if [of t this other s s']
  obtain d0 where pre: "this \<noteq> other" "conts s this = Some d0" "conts s other = Some u"
      "m_mtx d0 = None" "m_mtx u = None" by auto
  from a move_assign_result [OF pre, of t]
  have s': "s' = s\<lparr>conts := (conts s)
            (this \<mapsto> \<lparr>m_mtx = None, m_value = \<lparr>ptr = ptr (m_value u), del = del (m_value u)\<rparr>\<rparr>,
             other \<mapsto> \<lparr>m_mtx = None, m_value = \<lparr>ptr = None, del = del (m_value u)\<rparr>\<rparr>),
          trace := trace s @ [Acquire t this, Acquire t other]
             @ (case ptr (m_value d0) of None \<Rightarrow> [] | Some q \<Rightarrow> [Cleanup (del (m_value d0)) q])
             @ [Release t this, Release t other]\<rparr>"
    by simp
  show "get other s' = Inr (None, s')" by (simp add: s' get_def std_get_def)
  show "get this s' = Inr (ptr (m_value u), s')"
    using pre(1) by (simp add: s' get_def std_get_def)
next
  assume "this \<noteq> other \<and> conts s other = Some u \<and> m_mtx u = None"
  then show "\<exists>s1. unique_ptr_move_ctor t this other s = Inr s1"
    by (simp add: move_ctor_result)
next
  assume "this \<noteq> other \<and> conts s other = Some u \<and> m_mtx u = None
      \<and> conts s this = Some d \<and> m_mtx d = None"
  then show "\<exists>s1. unique_ptr_move_assign t this other s = Inr s1"
    by (simp add: move_assign_result)
qed

theorem move_leaves_source_null_witness:
  "\<exists>s1 s2. unique_ptr_move_ctor 5 30 10 two_containers = Inr s1
      \<and> get 10 s1 = Inr (None, s1) \<and> get 30 s1 = Inr (Some 7, s1)
      \<and> unique_ptr_move_assign 5 20 10 two_containers = Inr s2
      \<and> get 10 s2 = Inr (None, s2) \<and> get 20 s2 = Inr (Some 7, s2)"
proof -
  let ?u = "\<lparr>m_mtx = None, m_value = \<lparr>ptr = Some 7, del = Default_delete\<rparr>\<rparr>"
  let ?d = "\<lparr>m_mtx = None, m_value = \<lparr>ptr = Some 8, del = Custom_deleter 5\<rparr>\<rparr>"
  obtain s1 where s1: "unique_ptr_move_ctor 5 30 10 two_containers = Inr s1"
    using move_leaves_source_null [of 5 30 10 two_containers _ ?u ?d]
    by (auto simp: two_containers_A)
  obtain s2 where s2: "unique_ptr_move_assign 5 20 10 two_containers = Inr s2"
    using move_leaves_source_null [of 5 20 10 two_containers _ ?u ?d]
    by (auto simp: two_containers_A two_containers_B)
  from s1 move_leaves_source_null [of 5 30 10 two_containers s1 ?u ?d]
  have "get 10 s1 = Inr (None, s1) \<and> get 30 s1 = Inr (Some 7, s1)"
    by (simp add: two_containers_A)
  moreover
  from s2 move_leaves_source_null [of 5 20 10 two_containers s2 ?u ?d]
  have "get 10 s2 = Inr (None, s2) \<and> get 20 s2 = Inr (Some 7, s2)"
    by (simp add: two_containers_A)
  ultimately show ?thesis using s1 s2 by blast
qed

text \<open>
  C8. For every live container, \<open>get\<close> returns the stored raw pointer and the world it
  was called in: the managed pointer, the deleter, the owner of the mutex and the trace
  of lock events are all unchanged, so the lock is neither acquired nor released. It
  returns whoever holds the lock; where another thread holds it, the locking
  operations \<open>arrow\<close>, \<open>deref\<close> and \<open>lock\<close> wait instead.
\<close>

theorem get_has_no_effect:
  assumes "conts s c = Some u"
  shows "get c s = Inr (ptr (m_value u), s)
     \<and> (\<forall>t t'. m_mtx u = Some t' \<and> t' \<noteq> t \<longrightarrow>
            arrow t c s = Inl Blocks \<and> deref t c s = Inl Blocks \<and> lock t c s = Inl Blocks)"
  using assms
  by (simp add: get_def std_get_def arrow_def deref_def lock_def proxy_locker_ctor_def
      proxy_locker_for_subscript_ctor_def unique_lock_ctor_def lock_mtx_unfold)

lemma crossed_10:
  "conts (fst crossed) 10 = Some \<lparr>m_mtx = Some 6, m_value = \<lparr>ptr = Some 7, del = Default_delete\<rparr>\<rparr>"
  by (simp add: crossed_def)

theorem get_has_no_effect_witness:
  "get 10 (fst crossed) = Inr (Some 7, fst crossed)
   \<and> arrow 5 10 (fst crossed) = Inl Blocks \<and> deref 5 10 (fst crossed) = Inl Blocks
   \<and> lock 5 10 (fst crossed) = Inl Blocks"
  using get_has_no_effect [OF crossed_10] by simp

text \<open>
  C4. Whenever the destruction of a live container returns, the container is gone and
  the trace has grown by exactly one call of its deleter on the managed pointer when
  that pointer is not null, and by nothing when it is null. The destruction returns
  whenever the lock of the container is not held.
\<close>

theorem destruction_cleans_up_once:
  "(unique_ptr_dtor c s = Inr s' \<and> conts s c = Some u \<longrightarrow>
      conts s' c = None
      \<and> (\<forall>q. ptr (m_value u) = Some q \<longrightarrow> trace s' = trace s @ [Cleanup (del (m_value u)) q])
      \<and> (ptr (m_value u) = None \<longrightarrow> trace s' = trace s))
   \<and> (conts s c = Some u \<and> m_mtx u = None \<longrightarrow> (\<exists>s1. unique_ptr_dtor c s = Inr s1))"
  by (auto simp: unique_ptr_dtor_def std_unique_ptr_dtor_def split: if_splits)

theorem destruction_cleans_up_once_witness:
  "(\<exists>s'. unique_ptr_dtor 20 two_containers = Inr s' \<and> conts s' 20 = None
        \<and> trace s' = [Cleanup (Custom_deleter 5) 8])
   \<and> (\<exists>s'. unique_ptr_dtor 30 (unique_ptr_ctor 30 None two_containers) = Inr s'
        \<and> conts s' 30 = None \<and> trace s' = [])"
proof -
  let ?b = "\<lparr>m_mtx = None, m_value = \<lparr>ptr = Some 8, del = Custom_deleter 5\<rparr>\<rparr>"
  let ?e = "\<lparr>m_mtx = None, m_value = \<lparr>ptr = None, del = Default_delete\<rparr>\<rparr>"
  let ?w = "unique_ptr_ctor 30 None two_containers"
  have e: "conts ?w 30 = Some ?e" "trace ?w = []"
    by (simp_all add: unique_ptr_ctor_def std_unique_ptr_from_def two_containers_trace)
  obtain s1 where s1: "unique_ptr_dtor 20 two_containers = Inr s1"
    using destruction_cleans_up_once [of 20 two_containers _ ?b] two_containers_B by auto
  obtain s2 where s2: "unique_ptr_dtor 30 ?w = Inr s2"
    using destruction_cleans_up_once [of 30 ?w _ ?e] e(1) by auto
  from destruction_cleans_up_once [of 20 two_containers s1 ?b] s1 two_containers_B
  have "conts s1 20 = None \<and> trace s1 = [Cleanup (Custom_deleter 5) 8]"
    by (simp add: two_containers_trace)
  moreover
  from destruction_cleans_up_once [of 30 ?w s2 ?e] s2 e
  have "conts s2 30 = None \<and> trace s2 = []" by simp
  ultimately show ?thesis using s1 s2 by simp
qed

text \<open>
  C10. Whenever a move assignment into a destination that manages a non-null pointer
  \<open>q\<close> returns, the destination's old deleter has been called on \<open>q\<close> exactly once, while
  both locks were held, and the destination owns the pointer and the deleter of the
  source. The assignment returns whenever source and destination are different
  containers whose locks are free.
\<close>

theorem move_assign_cleans_destination:
  "(unique_ptr_move_assign t this other s = Inr s'
      \<and> conts s this = Some d \<and> conts s other = Some u \<and> ptr (m_value d) = Some q \<longrightarrow>
        trace s' = trace s @ [Acquire t this, Acquire t other, Cleanup (del (m_value d)) q,
                              Release t this, Release t other]
      \<and> get this s' = Inr (ptr (m_value u), s')
      \<and> conts s' this
          = Some \<lparr>m_mtx = None, m_value = \<lparr>ptr = ptr (m_value u), del = del (m_value u)\<rparr>\<rparr>)
   \<and> (this \<noteq> other \<and> conts s this = Some d \<and> conts s other = Some u
      \<and> m_mtx d = None \<and> m_mtx u = None \<longrightarrow>
        (\<exists>s1. unique_ptr_move_assign t this other s = Inr s1))"
proof (intro conjI impI)
  assume a: "unique_ptr_move_assign t this other s = Inr s'
      \<and> conts s this = Some d \<and> conts s other = Some u \<and> ptr (m_value d) = Some q"
  with move_assign_returns_only_if [of t this other s s']
  have pre: "this \<noteq> other" "conts s this = Some d" "conts s other = Some u"
    "m_mtx d = None" "m_mtx u = None" by auto
  from a move_assign_result [OF pre, of t]
  have s': "s' = s\<lparr>conts := (conts s)
            (this \<mapsto> \<lparr>m_mtx = None, m_value = \<lparr>ptr = ptr (m_value u), del = del (m_value u)\<rparr>\<rparr>,
             other \<mapsto> \<lparr>m_mtx = None, m_value = \<lparr>ptr = None, del = del (m_value u)\<rparr>\<rparr>),
          trace := trace s @ [Acquire t this, Acquire t other, Cleanup (del (m_value d)) q,
                              Release t this, Release t other]\<rparr>"
    by auto
  show "trace s' = trace s @ [Acquire t this, Acquire t other, Cleanup (del (m_value d)) q,
                              Release t this, Release t other]"
    by (simp add: s')
  show "get this s' = Inr (ptr (m_value u), s')"
    using pre(1) by (simp add: s' get_def std_get_def)
  show "conts s' this
      = Some \<lparr>m_mtx = None, m_value = \<lparr>ptr = ptr (m_value u), del = del (m_value u)\<rparr>\<rparr>"
    using pre(1) by (simp add: s')
next
  assume "this \<noteq> other \<and> conts s this = Some d \<and> conts s other = Some u
      \<and> m_mtx d = None \<and> m_mtx u = None"
  then show "\<exists>s1. unique_ptr_move_assign t this other s = Inr s1"
    by (simp add: move_assign_result)
qed

theorem move_assign_cleans_destination_witness:
  "\<exists>s'. unique_ptr_move_assign 5 20 10 two_containers = Inr s'
     \<and> trace s' = [Acquire 5 20, Acquire 5 10, Cleanup (Custom_deleter 5) 8,
                    Release 5 20, Release 5 10]
     \<and> get 20 s' = Inr (Some 7, s')
     \<and> conts s' 20 = Some \<lparr>m_mtx = None, m_value = \<lparr>ptr = Some 7, del = Default_delete\<rparr>\<rparr>"
proof -
  let ?a = "\<lparr>m_mtx = None, m_value = \<lparr>ptr = Some 7, del = Default_delete\<rparr>\<rparr>"
  let ?b = "\<lparr>m_mtx = None, m_value = \<lparr>ptr = Some 8, del = Custom_deleter 5\<rparr>\<rparr>"
  obtain s1 where s1: "unique_ptr_move_assign 5 20 10 two_containers = Inr s1"
    using move_assign_cleans_destination [of 5 20 10 two_containers _ ?b ?a]
      two_containers_A two_containers_B by auto
  from move_assign_cleans_destination [of 5 20 10 two_containers s1 ?b ?a 8] s1
    two_containers_A two_containers_B
  show ?thesis by (simp add: two_containers_trace)
qed

lemma unique_ptr_free_id:
  "m_mtx u = None \<Longrightarrow> \<lparr>m_mtx = None, m_value = m_value u\<rparr> = (u::unique_ptr)"
  by (cases u) simp

lemma arrow_result:
  assumes "conts s c = Some u" and "m_mtx u = None"
  shows "arrow t c s =
     Inr (\<lparr>proxy_locker.m_lock = \<lparr>pm = Some c, owns = True\<rparr>,
           proxy_locker.m_ptr = ptr (m_value u)\<rparr>,
          s\<lparr>conts := (conts s)(c \<mapsto> \<lparr>m_mtx = Some t, m_value = m_value u\<rparr>),
            trace := trace s @ [Acquire t c]\<rparr>)"
  using assms
  by (simp add: arrow_def proxy_locker_ctor_def unique_lock_ctor_def lock_mtx_unfold std_get_def
      upd_simps)

lemma deref_result:
  assumes "conts s c = Some u" and "m_mtx u = None"
  shows "deref t c s =
     Inr (\<lparr>proxy_locker_for_subscript.m_lock = \<lparr>pm = Some c, owns = True\<rparr>,
           proxy_locker_for_subscript.m_ptr = ptr (m_value u)\<rparr>,
          s\<lparr>conts := (conts s)(c \<mapsto> \<lparr>m_mtx = Some t, m_value = m_value u\<rparr>),
            trace := trace s @ [Acquire t c]\<rparr>)"
  using assms
  by (simp add: deref_def proxy_locker_for_subscript_ctor_def unique_lock_ctor_def
      lock_mtx_unfold std_get_def upd_simps)

lemma unlock_after_lock:
  assumes "conts s c = Some u" and "m_mtx u = None"
  shows "unlock_mtx t c
           (s\<lparr>conts := (conts s)(c \<mapsto> \<lparr>m_mtx = Some t, m_value = m_value u\<rparr>),
              heap := h, trace := tr\<rparr>)
         = Inr (s\<lparr>heap := h, trace := tr @ [Release t c]\<rparr>)"
  using assms
  by (simp add: unlock_mtx_unfold upd_simps unique_ptr_free_id map_upd_triv)

text \<open>
  C7. Both guards acquire the lock when they are constructed (by \<open>arrow\<close> and \<open>deref\<close>)
  and their destructor releases it: after construction and destruction the world is
  the one before, with one \<open>Acquire\<close> and one \<open>Release\<close> added to the trace. After a move
  construction the new guard releases the lock and destroying the moved-from guard
  changes nothing, in particular it releases nothing; destroying both gives exactly
  one \<open>Release\<close>.
\<close>

theorem guards_release_exactly_once:
  assumes "conts s c = Some u" and "m_mtx u = None"
  shows "(\<exists>g s1. arrow t c s = Inr (g, s1)
        \<and> owner s1 c = Some t \<and> trace s1 = trace s @ [Acquire t c]
        \<and> proxy_locker_arrow g = ptr (m_value u)
        \<and> proxy_locker_dtor t g s1 = Inr (s\<lparr>trace := trace s @ [Acquire t c, Release t c]\<rparr>)
        \<and> (case proxy_locker_move g of (g', g0) \<Rightarrow>
              proxy_locker_arrow g' = ptr (m_value u)
            \<and> proxy_locker_dtor t g0 s1 = Inr s1
            \<and> proxy_locker_dtor t g' s1 = Inr (s\<lparr>trace := trace s @ [Acquire t c, Release t c]\<rparr>)
            \<and> bind_res (proxy_locker_dtor t g' s1) (proxy_locker_dtor t g0)
                = Inr (s\<lparr>trace := trace s @ [Acquire t c, Release t c]\<rparr>)))
    \<and> (\<exists>g s1. deref t c s = Inr (g, s1)
        \<and> owner s1 c = Some t \<and> trace s1 = trace s @ [Acquire t c]
        \<and> proxy_locker_for_subscript.m_ptr g = ptr (m_value u)
        \<and> proxy_locker_for_subscript_dtor t g s1
            = Inr (s\<lparr>trace := trace s @ [Acquire t c, Release t c]\<rparr>)
        \<and> (case proxy_locker_for_subscript_move g of (g', g0) \<Rightarrow>
              proxy_locker_for_subscript.m_ptr g' = ptr (m_value u)
            \<and> proxy_locker_for_subscript_dtor t g0 s1 = Inr s1
            \<and> proxy_locker_for_subscript_dtor t g' s1
                = Inr (s\<lparr>trace := trace s @ [Acquire t c, Release t c]\<rparr>)
            \<and> bind_res (proxy_locker_for_subscript_dtor t g' s1)
                 (proxy_locker_for_subscript_dtor t g0)
                = Inr (s\<lparr>trace := trace s @ [Acquire t c, Release t c]\<rparr>)))"
proof -
  have u: "unlock_mtx t c
           (s\<lparr>conts := (conts s)(c \<mapsto> \<lparr>m_mtx = Some t, m_value = m_value u\<rparr>),
              trace := trace s @ [Acquire t c]\<rparr>)
         = Inr (s\<lparr>trace := trace s @ [Acquire t c, Release t c]\<rparr>)"
    using unlock_after_lock [where h = "heap s" and tr = "trace s @ [Acquire t c]", OF assms, of t]
    by simp
  have "\<exists>g s1. arrow t c s = Inr (g, s1)
        \<and> owner s1 c = Some t \<and> trace s1 = trace s @ [Acquire t c]
        \<and> proxy_locker_arrow g = ptr (m_value u)
        \<and> proxy_locker_dtor t g s1 = Inr (s\<lparr>trace := trace s @ [Acquire t c, Release t c]\<rparr>)
        \<and> (case proxy_locker_move g of (g', g0) \<Rightarrow>
              proxy_locker_arrow g' = ptr (m_value u)
            \<and> proxy_locker_dtor t g0 s1 = Inr s1
            \<and> proxy_locker_dtor t g' s1 = Inr (s\<lparr>trace := trace s @ [Acquire t c, Release t c]\<rparr>)
            \<and> bind_res (proxy_locker_dtor t g' s1) (proxy_locker_dtor t g0)
                = Inr (s\<lparr>trace := trace s @ [Acquire t c, Release t c]\<rparr>))"
    by (simp add: arrow_result [OF assms] owner_def proxy_locker_arrow_def proxy_locker_dtor_def
        unique_lock_dtor_def proxy_locker_move_def unique_lock_move_def u)
  moreover
  have "\<exists>g s1. deref t c s = Inr (g, s1)
        \<and> owner s1 c = Some t \<and> trace s1 = trace s @ [Acquire t c]
        \<and> proxy_locker_for_subscript.m_ptr g = ptr (m_value u)
        \<and> proxy_locker_for_subscript_dtor t g s1
            = Inr (s\<lparr>trace := trace s @ [Acquire t c, Release t c]\<rparr>)
        \<and> (case proxy_locker_for_subscript_move g of (g', g0) \<Rightarrow>
              proxy_locker_for_subscript.m_ptr g' = ptr (m_value u)
            \<and> proxy_locker_for_subscript_dtor t g0 s1 = Inr s1
            \<and> proxy_locker_for_subscript_dtor t g' s1
                = Inr (s\<lparr>trace := trace s @ [Acquire t c, Release t c]\<rparr>)
            \<and> bind_res (proxy_locker_for_subscript_dtor t g' s1)
                 (proxy_locker_for_subscript_dtor t g0)
                = Inr (s\<lparr>trace := trace s @ [Acquire t c, Release t c]\<rparr>))"
    by (simp add: deref_result [OF assms] owner_def proxy_locker_for_subscript_dtor_def
        unique_lock_dtor_def proxy_locker_for_subscript_move_def unique_lock_move_def u)
  ultimately show ?thesis by blast
qed

theorem guards_release_exactly_once_witness:
  "(\<exists>g s1. arrow 5 10 two_containers = Inr (g, s1)
        \<and> owner s1 10 = Some 5 \<and> trace s1 = [Acquire 5 10]
        \<and> proxy_locker_arrow g = Some 7
        \<and> proxy_locker_dtor 5 g s1 = Inr (two_containers\<lparr>trace := [Acquire 5 10, Release 5 10]\<rparr>)
        \<and> (case proxy_locker_move g of (g', g0) \<Rightarrow>
              proxy_locker_arrow g' = Some 7
            \<and> proxy_locker_dtor 5 g0 s1 = Inr s1
            \<and> proxy_locker_dtor 5 g' s1
                = Inr (two_containers\<lparr>trace := [Acquire 5 10, Release 5 10]\<rparr>)
            \<and> bind_res (proxy_locker_dtor 5 g' s1) (proxy_locker_dtor 5 g0)
                = Inr (two_containers\<lparr>trace := [Acquire 5 10, Release 5 10]\<rparr>)))
    \<and> (\<exists>g s1. deref 5 10 two_containers = Inr (g, s1)
        \<and> owner s1 10 = Some 5 \<and> trace s1 = [Acquire 5 10]
        \<and> proxy_locker_for_subscript.m_ptr g = Some 7
        \<and> proxy_locker_for_subscript_dtor 5 g s1
            = Inr (two_containers\<lparr>trace := [Acquire 5 10, Release 5 10]\<rparr>)
        \<and> (case proxy_locker_for_subscript_move g of (g', g0) \<Rightarrow>
              proxy_locker_for_subscript.m_ptr g' = Some 7
            \<and> proxy_locker_for_subscript_dtor 5 g0 s1 = Inr s1
            \<and> proxy_locker_for_subscript_dtor 5 g' s1
                = Inr (two_containers\<lparr>trace := [Acquire 5 10, Release 5 10]\<rparr>)
            \<and> bind_res (proxy_locker_for_subscript_dtor 5 g' s1)
                 (proxy_locker_for_subscript_dtor 5 g0)
                = Inr (two_containers\<lparr>trace := [Acquire 5 10, Release 5 10]\<rparr>)))"
proof -
  have m: "m_mtx \<lparr>m_mtx = None, m_value = \<lparr>ptr = Some 7, del = Default_delete\<rparr>\<rparr> = None"
    by simp
  from guards_release_exactly_once [OF two_containers_A m, of 5]
  show ?thesis by (simp only: two_containers_trace unique_ptr.simps std_unique_ptr.simps append_Nil)
qed

text \<open>
  C9. The subscript operation of the indexed guard is the built-in subscript on the
  captured raw pointer, with no check added. For a non-null pointer to an array and an
  offset inside the array it designates the element at that offset; for an offset
  outside the array, and for a null pointer, the behaviour is undefined: neither a value
  nor a reported error.
\<close>

theorem subscript_has_no_bounds_check:
  "subscript g i s = ptr_index (proxy_locker_for_subscript.m_ptr g) i s
   \<and> (proxy_locker_for_subscript.m_ptr g = Some a \<and> heap s a = Some xs
        \<and> 0 \<le> i \<and> i < int (length xs) \<longrightarrow>
        subscript g i s = Inr (a, nat i) \<and> read_ref (a, nat i) s = Inr (xs ! nat i))
   \<and> (proxy_locker_for_subscript.m_ptr g = Some a \<and> heap s a = Some xs
        \<and> (i < 0 \<or> int (length xs) \<le> i) \<longrightarrow>
        subscript g i s = Inl Undefined_behaviour)
   \<and> (proxy_locker_for_subscript.m_ptr g = None \<longrightarrow> subscript g i s = Inl Undefined_behaviour)"
  by (auto simp: subscript_def ptr_index_def read_ref_def)

theorem subscript_has_no_bounds_check_witness:
  "subscript \<lparr>proxy_locker_for_subscript.m_lock = \<lparr>pm = Some 10, owns = True\<rparr>,
              proxy_locker_for_subscript.m_ptr = Some 4\<rparr> 2 array_world = Inr (4, 2)
   \<and> read_ref (4, 2) array_world = Inr 13
   \<and> subscript \<lparr>proxy_locker_for_subscript.m_lock = \<lparr>pm = Some 10, owns = True\<rparr>,
              proxy_locker_for_subscript.m_ptr = Some 4\<rparr> 3 array_world = Inl Undefined_behaviour
   \<and> subscript \<lparr>proxy_locker_for_subscript.m_lock = \<lparr>pm = Some 10, owns = True\<rparr>,
              proxy_locker_for_subscript.m_ptr = Some 4\<rparr> (- 1) array_world
       = Inl Undefined_behaviour
   \<and> subscript \<lparr>proxy_locker_for_subscript.m_lock = \<lparr>pm = Some 10, owns = True\<rparr>,
              proxy_locker_for_subscript.m_ptr = None\<rparr> 0 array_world = Inl Undefined_behaviour"
proof -
  let ?g = "\<lparr>proxy_locker_for_subscript.m_lock = \<lparr>pm = Some 10, owns = True\<rparr>,
              proxy_locker_for_subscript.m_ptr = Some 4\<rparr>"
  let ?n = "\<lparr>proxy_locker_for_subscript.m_lock = \<lparr>pm = Some 10, owns = True\<rparr>,
              proxy_locker_for_subscript.m_ptr = None\<rparr>"
  have h: "heap array_world 4 = Some [11, 12, 13]" by (simp add: array_world_def)
  note T = subscript_has_no_bounds_check [where s = array_world and a = 4 and xs = "[11, 12, 13]"]
  from T [where g = ?g and i = 2, THEN conjunct2] h
  have a: "subscript ?g 2 array_world = Inr (4, 2) \<and> read_ref (4, 2) array_world = Inr 13"
    by simp
  from T [where g = ?g and i = 3, THEN conjunct2] h
  have b: "subscript ?g 3 array_world = Inl Undefined_behaviour" by simp
  from T [where g = ?g and i = "- 1", THEN conjunct2] h
  have c: "subscript ?g (- 1) array_world = Inl Undefined_behaviour" by simp
  from T [where g = ?n and i = 0, THEN conjunct2]
  have d: "subscript ?n 0 array_world = Inl Undefined_behaviour" by simp
  from a b c d show ?thesis by simp
qed

lemma subscript_assign_result:
  assumes "conts s c = Some u" and "m_mtx u = None" and "ptr (m_value u) = Some a"
    and "heap s a = Some xs" and "0 \<le> i" and "i < int (length xs)"
  shows "subscript_assign t c i v s =
     Inr (s\<lparr>heap := (heap s)(a \<mapsto> xs[nat i := v]),
            trace := trace s @ [Acquire t c, Release t c]\<rparr>)"
  using assms
  by (simp add: subscript_assign_def deref_result subscript_def ptr_index_def write_ref_def
      proxy_locker_for_subscript_dtor_def unique_lock_dtor_def nat_less_iff
      unlock_mtx_unfold upd_simps unique_ptr_free_id map_upd_triv)

lemma subscript_read_result:
  assumes "conts s c = Some u" and "m_mtx u = None" and "ptr (m_value u) = Some a"
    and "heap s a = Some xs" and "0 \<le> i" and "i < int (length xs)"
  shows "subscript_read t c i s =
     Inr (xs ! nat i, s\<lparr>trace := trace s @ [Acquire t c, Release t c]\<rparr>)"
  using assms
  by (simp add: subscript_read_def deref_result subscript_def ptr_index_def read_ref_def
      proxy_locker_for_subscript_dtor_def unique_lock_dtor_def nat_less_iff
      unlock_mtx_unfold upd_simps unique_ptr_free_id map_upd_triv)

lemma subscript_out_of_range:
  assumes "conts s c = Some u" and "m_mtx u = None" and "ptr (m_value u) = Some a"
    and "heap s a = Some xs" and "i < 0 \<or> int (length xs) \<le> i"
  shows "subscript_read t c i s = Inl Undefined_behaviour"
    and "subscript_assign t c i v s = Inl Undefined_behaviour"
  using assms
  by (auto simp: subscript_read_def subscript_assign_def deref_result subscript_def ptr_index_def)

lemma write_all_result:
  assumes "conts s c = Some u" and "m_mtx u = None" and "ptr (m_value u) = Some a"
    and "heap s a = Some xs" and "k + length vs \<le> length xs"
  shows "\<exists>s'. write_all t c (int k) vs s = Inr s' \<and> conts s' = conts s
           \<and> heap s' a = Some (take k xs @ vs @ drop (k + length vs) xs)"
  using assms
proof (induction vs arbitrary: k s xs)
  case Nil
  then show ?case by simp
next
  case (Cons v vs)
  let ?s1 = "s\<lparr>heap := (heap s)(a \<mapsto> xs[k := v]),
            trace := trace s @ [Acquire t c, Release t c]\<rparr>"
  from Cons.prems have k: "k < length xs" by simp
  with Cons.prems have st: "subscript_assign t c (int k) v s = Inr ?s1"
    using subscript_assign_result [of s c u a xs "int k" t v] by simp
  have "\<exists>s'. write_all t c (int (Suc k)) vs ?s1 = Inr s' \<and> conts s' = conts ?s1
           \<and> heap s' a = Some (take (Suc k) (xs[k := v]) @ vs @ drop (Suc k + length vs) (xs[k := v]))"
    using Cons.prems by (intro Cons.IH) simp_all
  then obtain s' where s': "write_all t c (int k + 1) vs ?s1 = Inr s'" "conts s' = conts s"
    "heap s' a = Some (take (Suc k) (xs[k := v]) @ vs @ drop (Suc k + length vs) (xs[k := v]))"
    by (auto simp: add.commute)
  have "take (Suc k) (xs[k := v]) = take k xs @ [v]"
    using k by (simp add: take_Suc_conv_app_nth)
  with s' st show ?case by simp
qed

text \<open>
  C6. \<open>make_unique_array\<close> makes no check on \<open>n\<close>: for every \<open>n\<close>, zero included, it fails
  exactly when the allocator refuses the request, and then with \<open>Bad_alloc\<close>. When the
  allocation succeeds it gives a container whose pointer is not null and points to an
  array of \<open>n\<close> default-initialised elements; writing \<open>n\<close> values to the positions
  \<open>0 .. n - 1\<close> through the indexed guard and then reading any position gives the value
  written there. With \<open>n = 0\<close> and a successful allocation the pointer is not null, the
  array is empty, and reading or writing at any index is undefined, so the valid index
  range is empty.
\<close>

theorem make_unique_array_roundtrip:
  "(allocator s (next_addr s) n \<and> length vs = n \<longrightarrow>
      (\<exists>a s0 s1. make_unique_array c n dflt s = Inr s0
         \<and> get c s0 = Inr (Some a, s0) \<and> heap s0 a = Some (replicate n dflt)
         \<and> write_all t c 0 vs s0 = Inr s1
         \<and> (\<forall>i<n. \<exists>s2. subscript_read t c (int i) s1 = Inr (vs ! i, s2))))
   \<and> (allocator s (next_addr s) 0 \<longrightarrow>
      (\<exists>a s0. make_unique_array c 0 dflt s = Inr s0
         \<and> get c s0 = Inr (Some a, s0) \<and> heap s0 a = Some []
         \<and> (\<forall>i v. subscript_read t c i s0 = Inl Undefined_behaviour
                  \<and> subscript_assign t c i v s0 = Inl Undefined_behaviour)))
   \<and> (\<forall>e. make_unique_array c n dflt s = Inl e \<longrightarrow>
         e = Bad_alloc \<and> \<not> allocator s (next_addr s) n)
   \<and> (\<not> allocator s (next_addr s) n \<longrightarrow> make_unique_array c n dflt s = Inl Bad_alloc)"
proof (intro conjI impI allI)
  assume pre: "allocator s (next_addr s) n \<and> length vs = n"
  let ?a = "next_addr s"
  let ?u = "\<lparr>m_mtx = None, m_value = \<lparr>ptr = Some ?a, del = Default_delete\<rparr>\<rparr>"
  let ?s0 = "unique_ptr_ctor c (Some ?a)
      (s\<lparr>heap := (heap s)(?a \<mapsto> replicate n dflt), next_addr := Suc ?a\<rparr>)"
  have mk: "make_unique_array c n dflt s = Inr ?s0"
    using pre by (simp add: make_unique_array_def new_array_def)
  have c0: "conts ?s0 c = Some ?u" and h0: "heap ?s0 ?a = Some (replicate n dflt)"
    by (simp_all add: unique_ptr_ctor_def std_unique_ptr_from_def)
  from write_all_result [OF c0 _ _ h0, of 0 vs t] pre
  obtain s1 where s1: "write_all t c 0 vs ?s0 = Inr s1" "conts s1 = conts ?s0"
    "heap s1 ?a = Some vs" by auto
  have rd: "\<exists>s2. subscript_read t c (int i) s1 = Inr (vs ! i, s2)" if "i < n" for i
    using subscript_read_result [of s1 c ?u ?a vs "int i" t] s1 c0 pre that by simp
  from mk c0 h0 s1 rd
  show "\<exists>a s0 s1. make_unique_array c n dflt s = Inr s0
         \<and> get c s0 = Inr (Some a, s0) \<and> heap s0 a = Some (replicate n dflt)
         \<and> write_all t c 0 vs s0 = Inr s1
         \<and> (\<forall>i<n. \<exists>s2. subscript_read t c (int i) s1 = Inr (vs ! i, s2))"
    by (intro exI [of _ ?a] exI [of _ ?s0] exI [of _ s1]) (simp add: get_def std_get_def)
next
  assume pre: "allocator s (next_addr s) 0"
  let ?a = "next_addr s"
  let ?u = "\<lparr>m_mtx = None, m_value = \<lparr>ptr = Some ?a, del = Default_delete\<rparr>\<rparr>"
  let ?s0 = "unique_ptr_ctor c (Some ?a) (s\<lparr>heap := (heap s)(?a \<mapsto> []), next_addr := Suc ?a\<rparr>)"
  have mk: "make_unique_array c 0 dflt s = Inr ?s0"
    using pre by (simp add: make_unique_array_def new_array_def)
  have c0: "conts ?s0 c = Some ?u" and h0: "heap ?s0 ?a = Some []"
    by (simp_all add: unique_ptr_ctor_def std_unique_ptr_from_def)
  have "subscript_read t c i ?s0 = Inl Undefined_behaviour
      \<and> subscript_assign t c i v ?s0 = Inl Undefined_behaviour" for i v
    using subscript_out_of_range(1) [OF c0 _ _ h0, where i = i and t = t]
      subscript_out_of_range(2) [OF c0 _ _ h0, where i = i and t = t and v = v]
    by (cases "i < 0") simp_all
  with mk c0 h0
  show "\<exists>a s0. make_unique_array c 0 dflt s = Inr s0
         \<and> get c s0 = Inr (Some a, s0) \<and> heap s0 a = Some []
         \<and> (\<forall>i v. subscript_read t c i s0 = Inl Undefined_behaviour
                  \<and> subscript_assign t c i v s0 = Inl Undefined_behaviour)"
    by (intro exI [of _ ?a] exI [of _ ?s0]) (simp add: get_def std_get_def)
next
  fix e assume "make_unique_array c n dflt s = Inl e"
  then show "e = Bad_alloc" and "\<not> allocator s (next_addr s) n"
    by (auto simp: make_unique_array_def new_array_def split: if_splits)
next
  assume "\<not> allocator s (next_addr s) n"
  then show "make_unique_array c n dflt s = Inl Bad_alloc"
    by (simp add: make_unique_array_def new_array_def)
qed

theorem make_unique_array_roundtrip_witness:
  "(\<exists>a s0 s1. make_unique_array 30 5 0 empty_world = Inr s0
      \<and> get 30 s0 = Inr (Some a, s0) \<and> heap s0 a = Some (replicate 5 0)
      \<and> write_all 5 30 0 [11, 12, 13, 14, 15] s0 = Inr s1
      \<and> (\<exists>s2. subscript_read 5 30 0 s1 = Inr (11, s2))
      \<and> (\<exists>s2. subscript_read 5 30 2 s1 = Inr (13, s2))
      \<and> (\<exists>s2. subscript_read 5 30 4 s1 = Inr (15, s2)))
   \<and> (\<exists>a s0. make_unique_array 30 0 0 empty_world = Inr s0
      \<and> get 30 s0 = Inr (Some a, s0) \<and> heap s0 a = Some []
      \<and> subscript_read 5 30 0 s0 = Inl Undefined_behaviour
      \<and> subscript_assign 5 30 0 11 s0 = Inl Undefined_behaviour)
   \<and> make_unique_array 30 0 0 no_memory = Inl Bad_alloc
   \<and> make_unique_array 30 5 0 no_memory = Inl Bad_alloc"
proof -
  note T = make_unique_array_roundtrip [of empty_world 5 "[11, 12, 13, 14, 15]" 30 0 5]
  have "allocator empty_world (next_addr empty_world) 5 \<and> length [11, 12, 13, 14, 15 :: nat] = 5"
    by (simp add: empty_world_def)
  with T obtain a s0 s1 where
    f: "make_unique_array 30 5 0 empty_world = Inr s0" "get 30 s0 = Inr (Some a, s0)"
      "heap s0 a = Some (replicate 5 0)" "write_all 5 30 0 [11, 12, 13, 14, 15] s0 = Inr s1"
    and r: "\<forall>i<5. \<exists>s2. subscript_read 5 30 (int i) s1 = Inr ([11, 12, 13, 14, 15] ! i, s2)"
    by blast
  from r [THEN spec, of 0] r [THEN spec, of 2] r [THEN spec, of 4]
  have "(\<exists>s2. subscript_read 5 30 0 s1 = Inr (11, s2))
      \<and> (\<exists>s2. subscript_read 5 30 2 s1 = Inr (13, s2))
      \<and> (\<exists>s2. subscript_read 5 30 4 s1 = Inr (15, s2))"
    by simp
  with f have first: "\<exists>a s0 s1. make_unique_array 30 5 0 empty_world = Inr s0
      \<and> get 30 s0 = Inr (Some a, s0) \<and> heap s0 a = Some (replicate 5 0)
      \<and> write_all 5 30 0 [11, 12, 13, 14, 15] s0 = Inr s1
      \<and> (\<exists>s2. subscript_read 5 30 0 s1 = Inr (11, s2))
      \<and> (\<exists>s2. subscript_read 5 30 2 s1 = Inr (13, s2))
      \<and> (\<exists>s2. subscript_read 5 30 4 s1 = Inr (15, s2))"
    by blast
  have "allocator empty_world (next_addr empty_world) 0" by (simp add: empty_world_def)
  with T have second: "\<exists>a s0. make_unique_array 30 0 0 empty_world = Inr s0
      \<and> get 30 s0 = Inr (Some a, s0) \<and> heap s0 a = Some []
      \<and> subscript_read 5 30 0 s0 = Inl Undefined_behaviour
      \<and> subscript_assign 5 30 0 11 s0 = Inl Undefined_behaviour"
    by blast
  have no: "\<not> allocator no_memory (next_addr no_memory) n" for n
    by (simp add: no_memory_def)
  from make_unique_array_roundtrip [of no_memory 0 "[]" 30 0 5] no [of 0]
  have third: "make_unique_array 30 0 0 no_memory = Inl Bad_alloc" by blast
  from make_unique_array_roundtrip [of no_memory 5 "[]" 30 0 5] no [of 5]
  have fourth: "make_unique_array 30 5 0 no_memory = Inl Bad_alloc" by blast
  from first second third fourth show ?thesis by blast
qed

section \<open>Properties of the concurrent model\<close>

text \<open>Effects of the primitives on \<open>owner\<close> and \<open>live\<close>.\<close>

lemma lock_mtx_Inr:
  assumes "lock_mtx t c s = Inr s'"
  shows "owner s c = None \<and> c \<in> live s \<and> owner s' = (owner s)(c := Some t) \<and> live s' = live s"
  using assms
  by (auto simp: lock_mtx_unfold owner_def live_def fun_eq_iff split: option.splits if_splits)

lemma lock_mtx_enabled:
  assumes "c \<in> live s" "owner s c \<noteq> Some t"
  shows "lock_mtx t c s \<noteq> Inl Undefined_behaviour"
    and "lock_mtx t c s = Inl Blocks \<Longrightarrow> \<exists>t'. owner s c = Some t' \<and> t' \<noteq> t"
  using assms
  by (auto simp: lock_mtx_unfold owner_def live_def split: option.splits if_splits)

lemma unlock_mtx_Inr:
  assumes "unlock_mtx t c s = Inr s'"
  shows "owner s c = Some t \<and> owner s' = (owner s)(c := None) \<and> live s' = live s"
  using assms
  by (auto simp: unlock_mtx_unfold owner_def live_def fun_eq_iff split: option.splits if_splits)

lemma unlock_mtx_enabled:
  assumes "owner s c = Some t"
  shows "\<exists>s'. unlock_mtx t c s = Inr s'"
  using assms
  by (auto simp: unlock_mtx_unfold owner_def split: option.splits)

lemma try_lock_mtx_Inr:
  assumes "try_lock_mtx t c s = Inr (ok, s')"
  shows "live s' = live s \<and>
     (if ok then owner s c = None \<and> owner s' = (owner s)(c := Some t)
      else owner s c \<noteq> None \<and> s' = s)"
  using assms
  by (auto simp: try_lock_mtx_unfold owner_def live_def fun_eq_iff split: option.splits if_splits)

lemma try_lock_mtx_enabled:
  assumes "c \<in> live s" "owner s c \<noteq> Some t"
  shows "\<exists>ok s'. try_lock_mtx t c s = Inr (ok, s')"
  using assms
  by (auto simp: try_lock_mtx_unfold owner_def live_def split: option.splits)

lemma move_m_value_Inr:
  assumes "move_m_value this other s = Inr s'"
  shows "owner s' = owner s \<and> live s' = live s"
  using assms
  by (auto simp: move_m_value_def owner_def live_def fun_eq_iff Let_def
      split: option.splits if_splits prod.splits)

lemma move_m_value_enabled:
  assumes "this \<noteq> other" "this \<in> live s" "other \<in> live s"
  shows "\<exists>s'. move_m_value this other s = Inr s'"
  using assms
  by (auto simp: move_m_value_def live_def Let_def split: option.splits prod.splits)

lemma default_ctor_effect:
  "live (unique_ptr_default_ctor c s) = insert c (live s)"
  "owner (unique_ptr_default_ctor c s) = (owner s)(c := None)"
  by (auto simp: unique_ptr_default_ctor_def owner_def live_def fun_eq_iff)

lemma owner_not_live: "c \<notin> live s \<Longrightarrow> owner s c = None"
  by (auto simp: owner_def live_def split: option.splits)

lemma mtx_of_the_other: "th_this th \<noteq> th_other th \<Longrightarrow> mtx_of (the_other w) th \<noteq> mtx_of w th"
  by (cases w) auto

lemma mtx_of_pc [simp]: "mtx_of w (th\<lparr>th_pc := p\<rparr>) = mtx_of w th"
  by (cases w) auto

lemma mtx_of_in: "mtx_of w th \<in> {th_this th, th_other th}"
  by (cases w) auto

lemma thread_ok_mtx_live:
  "thread_ok s th \<Longrightarrow> th_pc th \<noteq> Init_members \<Longrightarrow> mtx_of w th \<in> live s"
  by (cases w) (auto simp: thread_ok_def)

lemma thread_ok_owner:
  "thread_ok s th \<Longrightarrow> (owner s (mtx_of w th) = Some (th_id th)) = (mtx_of w th \<in> holds th)"
  by (cases w) (auto simp: thread_ok_def holds_def)

lemma thread_step_not_undefined:
  assumes ok: "thread_ok s th"
  shows "thread_step th s \<noteq> Inl Undefined_behaviour"
proof (cases "th_pc th")
  case Init_members
  then show ?thesis by (simp add: thread_step_def)
next
  case (Lock_first w)
  with ok thread_ok_owner [OF ok, of w]
  have "mtx_of w th \<in> live s" "owner s (mtx_of w th) \<noteq> Some (th_id th)"
    by (auto simp: thread_ok_mtx_live holds_def)
  from lock_mtx_enabled(1) [OF this] show ?thesis
    using Lock_first by (auto simp: thread_step_def bind_res_def split: sum.splits)
next
  case (Try_second w)
  with ok thread_ok_owner [OF ok, of "the_other w"]
  have "mtx_of (the_other w) th \<in> live s"
      "owner s (mtx_of (the_other w) th) \<noteq> Some (th_id th)"
    using mtx_of_the_other [of th w]
    by (auto simp: thread_ok_mtx_live thread_ok_def holds_def)
  from try_lock_mtx_enabled [OF this] show ?thesis
    using Try_second by (auto simp: thread_step_def)
next
  case (Back_off w)
  with thread_ok_owner [OF ok, of w] have "owner s (mtx_of w th) = Some (th_id th)"
    by (auto simp: holds_def)
  from unlock_mtx_enabled [OF this] show ?thesis
    using Back_off by (auto simp: thread_step_def)
next
  case Transfer
  with ok have "th_this th \<noteq> th_other th" "th_this th \<in> live s" "th_other th \<in> live s"
    by (auto simp: thread_ok_def holds_def)
  from move_m_value_enabled [OF this] show ?thesis
    using Transfer by (auto simp: thread_step_def)
next
  case Unlock_this
  with ok have "owner s (th_this th) = Some (th_id th)"
    by (auto simp: thread_ok_def holds_def)
  from unlock_mtx_enabled [OF this] show ?thesis
    using Unlock_this by (auto simp: thread_step_def)
next
  case Unlock_other
  with ok have "owner s (th_other th) = Some (th_id th)"
    by (auto simp: thread_ok_def holds_def)
  from unlock_mtx_enabled [OF this] show ?thesis
    using Unlock_other by (auto simp: thread_step_def)
next
  case Returned
  then show ?thesis by (simp add: thread_step_def)
qed

lemma thread_step_blocks:
  assumes ok: "thread_ok s th" and b: "thread_step th s = Inl Blocks"
  shows "\<exists>w t'. th_pc th = Lock_first w \<and> owner s (mtx_of w th) = Some t' \<and> t' \<noteq> th_id th"
proof (cases "th_pc th")
  case Init_members
  with b show ?thesis by (simp add: thread_step_def)
next
  case (Lock_first w)
  with ok thread_ok_owner [OF ok, of w]
  have "mtx_of w th \<in> live s" "owner s (mtx_of w th) \<noteq> Some (th_id th)"
    by (auto simp: thread_ok_mtx_live holds_def)
  from lock_mtx_enabled(2) [OF this] b show ?thesis
    using Lock_first by (auto simp: thread_step_def bind_res_def split: sum.splits)
next
  case (Try_second w)
  with ok thread_ok_owner [OF ok, of "the_other w"]
  have "mtx_of (the_other w) th \<in> live s"
      "owner s (mtx_of (the_other w) th) \<noteq> Some (th_id th)"
    using mtx_of_the_other [of th w]
    by (auto simp: thread_ok_mtx_live thread_ok_def holds_def)
  from try_lock_mtx_enabled [OF this] b show ?thesis
    using Try_second by (auto simp: thread_step_def)
next
  case (Back_off w)
  with thread_ok_owner [OF ok, of w] have "owner s (mtx_of w th) = Some (th_id th)"
    by (auto simp: holds_def)
  from unlock_mtx_enabled [OF this] b show ?thesis
    using Back_off by (auto simp: thread_step_def)
next
  case Transfer
  with ok have "th_this th \<noteq> th_other th" "th_this th \<in> live s" "th_other th \<in> live s"
    by (auto simp: thread_ok_def holds_def)
  from move_m_value_enabled [OF this] b show ?thesis
    using Transfer by (auto simp: thread_step_def)
next
  case Unlock_this
  with ok have "owner s (th_this th) = Some (th_id th)"
    by (auto simp: thread_ok_def holds_def)
  from unlock_mtx_enabled [OF this] b show ?thesis
    using Unlock_this by (auto simp: thread_step_def)
next
  case Unlock_other
  with ok have "owner s (th_other th) = Some (th_id th)"
    by (auto simp: thread_ok_def holds_def)
  from unlock_mtx_enabled [OF this] b show ?thesis
    using Unlock_other by (auto simp: thread_step_def)
next
  case Returned
  with b show ?thesis by (simp add: thread_step_def)
qed

lemma thread_step_effect:
  assumes ok: "thread_ok s th" and st: "thread_step th s = Inr (pc', s')"
  shows "pc' \<noteq> Init_members
    \<and> live s' = (if th_pc th = Init_members then insert (th_this th) (live s) else live s)
    \<and> (\<forall>c. owner s' c =
          (if c \<in> holds (th\<lparr>th_pc := pc'\<rparr>) then Some (th_id th)
           else if c \<in> holds th then None else owner s c))
    \<and> (\<forall>c \<in> holds (th\<lparr>th_pc := pc'\<rparr>) - holds th. owner s c = None)
    \<and> holds (th\<lparr>th_pc := pc'\<rparr>) \<subseteq> {th_this th, th_other th}"
proof (cases "th_pc th")
  case Init_members
  with ok st show ?thesis
    by (auto simp: thread_step_def default_ctor_effect thread_ok_def owner_not_live holds_def)
next
  case (Lock_first w)
  with st obtain s1 where "lock_mtx (th_id th) (mtx_of w th) s = Inr s1" "pc' = Try_second w" "s' = s1"
    by (auto simp: thread_step_def bind_res_def split: sum.splits)
  with lock_mtx_Inr [of "th_id th" "mtx_of w th" s s'] Lock_first mtx_of_in [of w th] show ?thesis
    by (auto simp: holds_def)
next
  case (Try_second w)
  with st obtain ok1 where t: "try_lock_mtx (th_id th) (mtx_of (the_other w) th) s = Inr (ok1, s')"
      "pc' = (if ok1 then Transfer else Back_off w)"
    by (auto simp: thread_step_def bind_res_def split: sum.splits)
  from thread_ok_owner [OF ok, of w] Try_second have h: "owner s (mtx_of w th) = Some (th_id th)"
    by (auto simp: holds_def)
  from ok have ne: "th_this th \<noteq> th_other th" by (simp add: thread_ok_def)
  show ?thesis
  proof (cases ok1)
    case True
    with t try_lock_mtx_Inr [OF t(1)] Try_second h ne show ?thesis
      by (cases w) (auto simp: holds_def)
  next
    case False
    with t try_lock_mtx_Inr [OF t(1)] Try_second h ne show ?thesis
      by (cases w) (auto simp: holds_def)
  qed
next
  case (Back_off w)
  with st obtain s1 where "unlock_mtx (th_id th) (mtx_of w th) s = Inr s1"
      "pc' = Lock_first (the_other w)" "s' = s1"
    by (auto simp: thread_step_def bind_res_def split: sum.splits)
  with unlock_mtx_Inr [of "th_id th" "mtx_of w th" s s'] Back_off show ?thesis
    by (auto simp: holds_def)
next
  case Transfer
  with st have "move_m_value (th_this th) (th_other th) s = Inr s'" "pc' = Unlock_this"
    by (auto simp: thread_step_def bind_res_def split: sum.splits)
  with move_m_value_Inr [of "th_this th" "th_other th" s s'] Transfer ok show ?thesis
    by (auto simp: thread_ok_def holds_def)
next
  case Unlock_this
  with st have "unlock_mtx (th_id th) (th_this th) s = Inr s'" "pc' = Unlock_other"
    by (auto simp: thread_step_def bind_res_def split: sum.splits)
  with unlock_mtx_Inr [of "th_id th" "th_this th" s s'] Unlock_this ok show ?thesis
    by (auto simp: thread_ok_def holds_def)
next
  case Unlock_other
  with st have "unlock_mtx (th_id th) (th_other th) s = Inr s'" "pc' = Returned"
    by (auto simp: thread_step_def bind_res_def split: sum.splits)
  with unlock_mtx_Inr [of "th_id th" "th_other th" s s'] Unlock_other ok show ?thesis
    by (auto simp: thread_ok_def holds_def)
next
  case Returned
  with st ok show ?thesis
    by (auto simp: thread_step_def thread_ok_def holds_def)
qed

lemma thread_step_no_bad_alloc: "thread_step th s \<noteq> Inl Bad_alloc"
  by (auto simp: thread_step_def lock_mtx_unfold unlock_mtx_unfold try_lock_mtx_unfold
      move_m_value_def bind_res_def Let_def
      split: pc.splits option.splits sum.splits if_splits prod.splits)

lemma distinct_ids:
  assumes "distinct (map th_id thrs)" "i < length thrs" "j < length thrs" "i \<noteq> j"
  shows "th_id (thrs ! i) \<noteq> th_id (thrs ! j)"
  using assms by (auto simp: distinct_conv_nth)

lemma holds_subset: "holds th \<subseteq> {th_this th, th_other th}"
  using mtx_of_in [of _ th] by (cases "th_pc th") (auto simp: holds_def)

lemma inv_step:
  assumes I: "inv x" and st: "sys_step x y"
  shows "inv y"
  using st
proof cases
  case (step_thread i thrs s pc' s')
  let ?th = "thrs ! i"
  let ?th' = "?th\<lparr>th_pc := pc'\<rparr>"
  let ?thrs' = "thrs[i := ?th']"
  from I step_thread(1) have
    D: "distinct (map th_id thrs)" and
    OK: "\<And>j. j < length thrs \<Longrightarrow> thread_ok s (thrs ! j)" and
    I3: "\<And>j k. j < length thrs \<Longrightarrow> k < length thrs \<Longrightarrow> j \<noteq> k \<Longrightarrow>
            th_pc (thrs ! j) = Init_members \<Longrightarrow> th_pc (thrs ! k) = Init_members \<Longrightarrow>
            th_this (thrs ! j) \<noteq> th_this (thrs ! k)" and
    I5: "\<And>j c t. j < length thrs \<Longrightarrow> c \<in> {th_this (thrs ! j), th_other (thrs ! j)} \<Longrightarrow>
            owner s c = Some t \<Longrightarrow> \<exists>k<length thrs. th_id (thrs ! k) = t \<and> c \<in> holds (thrs ! k)"
    by (auto simp: inv_def)
  note i = step_thread(3)
  from thread_step_effect [OF OK [OF i] step_thread(5)] have
    E1: "pc' \<noteq> Init_members" and
    E2: "live s' = (if th_pc ?th = Init_members then insert (th_this ?th) (live s) else live s)" and
    E3: "\<And>c. owner s' c = (if c \<in> holds ?th' then Some (th_id ?th)
           else if c \<in> holds ?th then None else owner s c)" and
    E4: "\<And>c. c \<in> holds ?th' \<Longrightarrow> c \<notin> holds ?th \<Longrightarrow> owner s c = None" and
    E5: "holds ?th' \<subseteq> {th_this ?th, th_other ?th}"
    by auto
  have oki: "thread_ok s ?th" by (rule OK [OF i])
  have held_i: "\<And>c. c \<in> holds ?th \<Longrightarrow> owner s c = Some (th_id ?th)"
    using oki holds_subset [of ?th] by (auto simp: thread_ok_def)
  have nth': "\<And>j. j < length thrs \<Longrightarrow> ?thrs' ! j = (if j = i then ?th' else thrs ! j)"
    by (simp add: nth_list_update)
  have ids: "map th_id ?thrs' = map th_id thrs"
    using i by (simp add: map_update list_update_same_conv)
  have c1: "distinct (map th_id ?thrs')" using D ids by simp
  have c2: "thread_ok s' (?thrs' ! j)" if j: "j < length thrs" for j
  proof (cases "j = i")
    case True
    have "thread_ok s' ?th'"
      unfolding thread_ok_def
    proof (intro conjI ballI)
      show "th_this ?th' \<noteq> th_other ?th'" using oki by (simp add: thread_ok_def)
      show "th_other ?th' \<in> live s'" using oki E2 by (simp add: thread_ok_def)
      show "(th_this ?th' \<in> live s') = (th_pc ?th' \<noteq> Init_members)"
        using oki E1 E2 by (auto simp: thread_ok_def)
    next
      fix c assume "c \<in> {th_this ?th', th_other ?th'}"
      then have c: "c \<in> {th_this ?th, th_other ?th}" by simp
      show "(owner s' c = Some (th_id ?th')) = (c \<in> holds ?th')"
      proof (cases "c \<in> holds ?th'")
        case True
        then show ?thesis using E3 [of c] by simp
      next
        case False
        show ?thesis
        proof (cases "c \<in> holds ?th")
          case True
          with False show ?thesis using E3 [of c] by simp
        next
          case nh: False
          with oki c have "owner s c \<noteq> Some (th_id ?th)" by (auto simp: thread_ok_def)
          with False nh show ?thesis using E3 [of c] by simp
        qed
      qed
    qed
    with True j show ?thesis by (simp add: nth')
  next
    case False
    let ?tj = "thrs ! j"
    have okj: "thread_ok s ?tj" by (rule OK [OF j])
    have neq: "th_id ?tj \<noteq> th_id ?th" using distinct_ids [OF D j i False] .
    have held_j: "\<And>c. c \<in> holds ?tj \<Longrightarrow> owner s c = Some (th_id ?tj)"
      using okj holds_subset [of ?tj] by (auto simp: thread_ok_def)
    have "thread_ok s' ?tj"
      unfolding thread_ok_def
    proof (intro conjI ballI)
      show "th_this ?tj \<noteq> th_other ?tj" using okj by (simp add: thread_ok_def)
      show "th_other ?tj \<in> live s'" using okj E2 by (simp add: thread_ok_def)
      show "(th_this ?tj \<in> live s') = (th_pc ?tj \<noteq> Init_members)"
      proof (cases "th_pc ?th = Init_members")
        case True
        show ?thesis
        proof (cases "th_pc ?tj = Init_members")
          case tj: True
          from I3 [OF j i False tj True] okj tj show ?thesis
            using E2 True by (auto simp: thread_ok_def)
        next
          case tj: False
          with okj show ?thesis using E2 True by (auto simp: thread_ok_def)
        qed
      next
        case False
        with okj E2 show ?thesis by (simp add: thread_ok_def)
      qed
    next
      fix c assume c: "c \<in> {th_this ?tj, th_other ?tj}"
      with okj have old: "(owner s c = Some (th_id ?tj)) = (c \<in> holds ?tj)"
        by (auto simp: thread_ok_def)
      show "(owner s' c = Some (th_id ?tj)) = (c \<in> holds ?tj)"
      proof (cases "c \<in> holds ?th'")
        case True
        have "c \<notin> holds ?tj"
        proof
          assume "c \<in> holds ?tj"
          then have o: "owner s c = Some (th_id ?tj)" by (rule held_j)
          show False
          proof (cases "c \<in> holds ?th")
            case True
            from held_i [OF this] o neq show False by simp
          next
            case False
            from E4 [OF True False] o show False by simp
          qed
        qed
        with True neq show ?thesis using E3 [of c] by auto
      next
        case False
        show ?thesis
        proof (cases "c \<in> holds ?th")
          case True
          from held_i [OF True] neq old have "c \<notin> holds ?tj" by auto
          with False True show ?thesis using E3 [of c] by simp
        next
          case nh: False
          with False old show ?thesis using E3 [of c] by simp
        qed
      qed
    qed
    with False j show ?thesis by (simp add: nth')
  qed
  have c3: "th_this (?thrs' ! j) \<noteq> th_this (?thrs' ! k)"
    if "j < length thrs" "k < length thrs" "j \<noteq> k"
      "th_pc (?thrs' ! j) = Init_members" "th_pc (?thrs' ! k) = Init_members" for j k
  proof -
    from that E1 have "j \<noteq> i" "k \<noteq> i" by (auto simp: nth' split: if_splits)
    with that I3 [of j k] show ?thesis by (simp add: nth')
  qed
  have c5: "\<exists>k<length thrs. th_id (?thrs' ! k) = t \<and> c \<in> holds (?thrs' ! k)"
    if j: "j < length thrs" and c: "c \<in> {th_this (?thrs' ! j), th_other (?thrs' ! j)}"
      and o: "owner s' c = Some t" for j c t
  proof -
    from j c have c': "c \<in> {th_this (thrs ! j), th_other (thrs ! j)}"
      by (auto simp: nth' split: if_splits)
    show ?thesis
    proof (cases "c \<in> holds ?th'")
      case True
      with o E3 [of c] have "t = th_id ?th" by simp
      with True i show ?thesis by (intro exI [of _ i]) (simp add: nth')
    next
      case False
      with o E3 [of c] have nh: "c \<notin> holds ?th" and "owner s c = Some t"
        by (auto split: if_splits)
      from I5 [OF j c' this(2)] obtain k where
        k: "k < length thrs" "th_id (thrs ! k) = t" "c \<in> holds (thrs ! k)" by blast
      with nh have "k \<noteq> i" by auto
      with k show ?thesis by (intro exI [of _ k]) (simp add: nth')
    qed
  qed
  from c1 c2 c3 c5 show ?thesis
    unfolding step_thread(2) inv_def by simp
qed

lemma inv_reachable:
  assumes "sys_step\<^sup>*\<^sup>* x y" "inv x"
  shows "inv y"
  using assms by (induction rule: rtranclp_induct) (auto intro: inv_step)

lemma distinct_map_filter_nth:
  assumes "distinct (map f (filter P xs))" "i < length xs" "j < length xs" "i \<noteq> j"
    "P (xs ! i)" "P (xs ! j)"
  shows "f (xs ! i) \<noteq> f (xs ! j)"
  using assms
proof (induction xs arbitrary: i j)
  case Nil
  then show ?case by simp
next
  case (Cons x xs)
  show ?case
  proof (cases i)
    case i0: 0
    with Cons.prems obtain j' where j: "j = Suc j'" by (cases j) auto
    with Cons.prems i0 have "xs ! j' \<in> set (filter P xs)" by auto
    with Cons.prems i0 j show ?thesis by (auto simp: image_iff)
  next
    case (Suc i')
    show ?thesis
    proof (cases j)
      case 0
      with Cons.prems Suc have "xs ! i' \<in> set (filter P xs)" by auto
      with Cons.prems Suc 0 show ?thesis by (auto simp: image_iff)
    next
      case j: (Suc j')
      with Cons.prems Suc Cons.IH [of i' j'] show ?thesis
        by (auto split: if_splits)
    qed
  qed
qed

lemma initial_inv:
  assumes "initial x"
  shows "inv x"
proof -
  obtain s thrs where x: "x = (s, thrs)" by (cases x)
  from assms x have
    D: "distinct (map th_id thrs)" and
    F: "\<And>i. i < length thrs \<Longrightarrow> owner s (th_this (thrs ! i)) = None \<and> owner s (th_other (thrs ! i)) = None" and
    T: "\<And>i. i < length thrs \<Longrightarrow> th_this (thrs ! i) \<noteq> th_other (thrs ! i) \<and> th_other (thrs ! i) \<in> live s
              \<and> (if th_this (thrs ! i) \<in> live s then th_pc (thrs ! i) = Lock_first This_mtx
                  else th_pc (thrs ! i) = Init_members)" and
    C: "distinct (map th_this (filter (\<lambda>th. th_pc th = Init_members) thrs))"
    by (auto simp: initial_def list_all_iff)
  have ok: "thread_ok s (thrs ! i)" if "i < length thrs" for i
    using F [OF that] T [OF that]
    by (auto simp: thread_ok_def holds_def split: if_splits)
  have I3: "th_this (thrs ! i) \<noteq> th_this (thrs ! j)"
    if "i < length thrs" "j < length thrs" "i \<noteq> j"
      "th_pc (thrs ! i) = Init_members" "th_pc (thrs ! j) = Init_members" for i j
    using distinct_map_filter_nth [OF C that] .
  from D ok I3 F show ?thesis
    unfolding x inv_def by auto
qed

subsection \<open>The sequential model agrees with the steps\<close>

text \<open>
  A thread that runs alone reaches in two steps the world the constructor of the
  scoped lock returns, and where that constructor waits or is undefined so is the
  thread after a few steps. The move operations of the sequential model are the
  complete runs of six and seven steps.
\<close>

lemma scoped_lock_ctor_steps:
  assumes "scoped_lock_ctor t this other s = Inr s'"
  shows "run_thread 2 \<lparr>th_id = t, th_this = this, th_other = other, th_pc = Lock_first This_mtx\<rparr> s
           = Inr (Transfer, s')"
  using assms
  by (auto simp: scoped_lock_ctor_def eval_nat_numeral thread_step_def bind_res_def
      split: sum.splits prod.splits if_splits)

lemma scoped_lock_ctor_undefined_steps:
  assumes "scoped_lock_ctor t this other s = Inl Undefined_behaviour"
  shows "\<exists>n. run_thread n \<lparr>th_id = t, th_this = this, th_other = other, th_pc = Lock_first This_mtx\<rparr> s
           = Inl Undefined_behaviour"
proof (cases "lock_mtx t this s")
  case (Inl e)
  with assms have "run_thread 1 \<lparr>th_id = t, th_this = this, th_other = other, th_pc = Lock_first This_mtx\<rparr> s
           = Inl Undefined_behaviour"
    by (simp add: scoped_lock_ctor_def thread_step_def)
  then show ?thesis ..
next
  case (Inr s1)
  with assms have "run_thread 2 \<lparr>th_id = t, th_this = this, th_other = other, th_pc = Lock_first This_mtx\<rparr> s
           = Inl Undefined_behaviour"
    by (auto simp: scoped_lock_ctor_def eval_nat_numeral thread_step_def bind_res_def
      split: sum.splits prod.splits if_splits)
  then show ?thesis ..
qed

lemma scoped_lock_ctor_blocks_steps:
  assumes "scoped_lock_ctor t this other s = Inl Blocks"
  shows "\<exists>n. run_thread n \<lparr>th_id = t, th_this = this, th_other = other, th_pc = Lock_first This_mtx\<rparr> s
           = Inl Blocks"
proof (cases "lock_mtx t this s")
  case (Inl e)
  with assms have "run_thread 1 \<lparr>th_id = t, th_this = this, th_other = other, th_pc = Lock_first This_mtx\<rparr> s
           = Inl Blocks"
    by (simp add: scoped_lock_ctor_def thread_step_def)
  then show ?thesis ..
next
  case (Inr s1)
  with assms have tl: "try_lock_mtx t other s1 = Inr (False, s1)"
    by (auto simp: scoped_lock_ctor_def try_lock_mtx_unfold split: option.splits if_splits)
  from Inr have l: "owner s this = None" "this \<in> live s" "owner s1 = (owner s)(this := Some t)"
    using lock_mtx_Inr [of t this s s1] by auto
  from tl have o: "owner s1 other \<noteq> None" "owner s1 other \<noteq> Some t"
    by (auto simp: try_lock_mtx_unfold owner_def split: option.splits if_splits)
  with l have ne: "other \<noteq> this" by auto
  from unlock_mtx_enabled [of s1 this t] l obtain s2 where
    u: "unlock_mtx t this s1 = Inr s2" by auto
  from unlock_mtx_Inr [OF u] l ne have o2: "owner s2 other = owner s1 other" "live s2 = live s1"
    by auto
  from o obtain t' where "owner s1 other = Some t'" "t' \<noteq> t" by auto
  with o2 have "lock_mtx t other s2 = Inl Blocks"
    by (auto simp: lock_mtx_unfold owner_def split: option.splits)
  with Inr tl u
  have "run_thread 4 \<lparr>th_id = t, th_this = this, th_other = other, th_pc = Lock_first This_mtx\<rparr> s
           = Inl Blocks"
    by (simp add: eval_nat_numeral thread_step_def)
  then show ?thesis ..
qed

lemma move_assign_steps:
  assumes "unique_ptr_move_assign t this other s = Inr s'"
  shows "run_thread 6 \<lparr>th_id = t, th_this = this, th_other = other, th_pc = Lock_first This_mtx\<rparr> s
           = Inr (Returned, s')"
  using assms
  by (auto simp: unique_ptr_move_assign_def scoped_lock_ctor_def scoped_lock_dtor_def
      eval_nat_numeral thread_step_def bind_res_def
      split: sum.splits prod.splits if_splits)

lemma move_ctor_steps:
  assumes "unique_ptr_move_ctor t this other s = Inr s'"
  shows "run_thread 7 \<lparr>th_id = t, th_this = this, th_other = other, th_pc = Init_members\<rparr> s
           = Inr (Returned, s')"
  using assms
  by (auto simp: unique_ptr_move_ctor_def scoped_lock_ctor_def scoped_lock_dtor_def
      eval_nat_numeral thread_step_def bind_res_def
      split: sum.splits prod.splits if_splits)

subsection \<open>No reachable deadlock\<close>

lemma inv_progress:
  assumes I: "inv (s, thrs)"
  shows "\<not> deadlocked (s, thrs)" and "\<not> undefined_next (s, thrs)"
    and "\<forall>th \<in> set thrs. \<forall>w. th_pc th = Lock_first w \<longrightarrow>
           owner s (th_this th) \<noteq> Some (th_id th) \<and> owner s (th_other th) \<noteq> Some (th_id th)"
    and "\<forall>th \<in> set thrs. thread_step th s = Inl Blocks \<longrightarrow>
           (\<exists>w. \<exists>th' \<in> set thrs. th_pc th = Lock_first w
              \<and> owner s (mtx_of w th) = Some (th_id th')
              \<and> th_pc th' \<noteq> Returned \<and> (\<exists>pc' s'. thread_step th' s = Inr (pc', s')))"
    and "\<forall>th \<in> set thrs. th_pc th = Transfer \<longrightarrow>
           owner s (th_this th) = Some (th_id th) \<and> owner s (th_other th) = Some (th_id th)"
proof -
  from I have
    OK: "\<And>j. j < length thrs \<Longrightarrow> thread_ok s (thrs ! j)" and
    I5: "\<And>j c t. j < length thrs \<Longrightarrow> c \<in> {th_this (thrs ! j), th_other (thrs ! j)} \<Longrightarrow>
            owner s c = Some t \<Longrightarrow> \<exists>k<length thrs. th_id (thrs ! k) = t \<and> c \<in> holds (thrs ! k)"
    by (auto simp: inv_def)
  have runs: "th_pc (thrs ! k) \<noteq> Returned \<and> (\<exists>pc' s'. thread_step (thrs ! k) s = Inr (pc', s'))"
    if k: "k < length thrs" and h: "c \<in> holds (thrs ! k)" for k c
  proof -
    from h have nr: "th_pc (thrs ! k) \<noteq> Returned" by (auto simp: holds_def)
    have "thread_step (thrs ! k) s \<noteq> Inl Blocks"
      using thread_step_blocks [OF OK [OF k]] h by (auto simp: holds_def)
    with thread_step_not_undefined [OF OK [OF k]] thread_step_no_bad_alloc [of "thrs ! k" s]
    have "\<exists>pc' s'. thread_step (thrs ! k) s = Inr (pc', s')"
      by (cases "thread_step (thrs ! k) s") (auto intro: fault.exhaust)
    with nr show ?thesis by simp
  qed
  have waits: "\<exists>w. \<exists>k<length thrs. th_pc (thrs ! i) = Lock_first w
        \<and> owner s (mtx_of w (thrs ! i)) = Some (th_id (thrs ! k))
        \<and> th_pc (thrs ! k) \<noteq> Returned \<and> (\<exists>pc' s'. thread_step (thrs ! k) s = Inr (pc', s'))"
    if i: "i < length thrs" and b: "thread_step (thrs ! i) s = Inl Blocks" for i
  proof -
    from thread_step_blocks [OF OK [OF i] b] obtain w t' where
      w: "th_pc (thrs ! i) = Lock_first w" "owner s (mtx_of w (thrs ! i)) = Some t'"
      by blast
    from I5 [OF i mtx_of_in w(2)] obtain k where
      k: "k < length thrs" "th_id (thrs ! k) = t'" "mtx_of w (thrs ! i) \<in> holds (thrs ! k)"
      by blast
    from runs [OF k(1,3)] w k show ?thesis by blast
  qed
  show "\<not> undefined_next (s, thrs)"
    using OK thread_step_not_undefined by (auto simp: undefined_next_def list_ex_length)
  show "\<forall>th \<in> set thrs. th_pc th = Transfer \<longrightarrow>
           owner s (th_this th) = Some (th_id th) \<and> owner s (th_other th) = Some (th_id th)"
    using OK by (auto simp: in_set_conv_nth thread_ok_def holds_def)
  show "\<forall>th \<in> set thrs. \<forall>w. th_pc th = Lock_first w \<longrightarrow>
           owner s (th_this th) \<noteq> Some (th_id th) \<and> owner s (th_other th) \<noteq> Some (th_id th)"
    using OK by (auto simp: in_set_conv_nth thread_ok_def holds_def)
  show "\<forall>th \<in> set thrs. thread_step th s = Inl Blocks \<longrightarrow>
           (\<exists>w. \<exists>th' \<in> set thrs. th_pc th = Lock_first w
              \<and> owner s (mtx_of w th) = Some (th_id th')
              \<and> th_pc th' \<noteq> Returned \<and> (\<exists>pc' s'. thread_step th' s = Inr (pc', s')))"
  proof (intro ballI impI)
    fix th assume "th \<in> set thrs" and b: "thread_step th s = Inl Blocks"
    then obtain i where i: "i < length thrs" "th = thrs ! i" by (auto simp: in_set_conv_nth)
    from waits [OF i(1)] b i(2) obtain w k where
      "k < length thrs" "th_pc th = Lock_first w"
      "owner s (mtx_of w th) = Some (th_id (thrs ! k))"
      "th_pc (thrs ! k) \<noteq> Returned" "\<exists>pc' s'. thread_step (thrs ! k) s = Inr (pc', s')"
      by auto
    then show "\<exists>w. \<exists>th' \<in> set thrs. th_pc th = Lock_first w
              \<and> owner s (mtx_of w th) = Some (th_id th')
              \<and> th_pc th' \<noteq> Returned \<and> (\<exists>pc' s'. thread_step th' s = Inr (pc', s'))"
      by (intro exI [of _ w] bexI [of _ "thrs ! k"]) simp_all
  qed
  show "\<not> deadlocked (s, thrs)"
  proof
    assume d: "deadlocked (s, thrs)"
    then obtain i where i: "i < length thrs" "th_pc (thrs ! i) \<noteq> Returned"
      by (auto simp: deadlocked_def list_ex_length)
    from d have all: "\<And>j. j < length thrs \<Longrightarrow> th_pc (thrs ! j) \<noteq> Returned \<Longrightarrow>
        thread_step (thrs ! j) s = Inl Blocks"
      by (auto simp: deadlocked_def list_all_length)
    from waits [OF i(1) all [OF i]] obtain k where
      "k < length thrs" "th_pc (thrs ! k) \<noteq> Returned"
      "\<exists>pc' s'. thread_step (thrs ! k) s = Inr (pc', s')" by blast
    with all [of k] show False by auto
  qed
qed

subsection \<open>Every run can be completed\<close>

text \<open>
  From a state that satisfies the invariant, the threads that hold a mutex are run
  first, until no thread holds one: a thread that holds a mutex is never the one that
  waits, and each of its steps brings it nearer to holding none. Then the threads that
  have not returned run one at a time, each alone to its return: with every mutex free
  the \<^verbatim>\<open>try_lock\<close> of the running thread succeeds.
\<close>

lemma inv_thread_ok: "inv (s, thrs) \<Longrightarrow> i < length thrs \<Longrightarrow> thread_ok s (thrs ! i)"
  by (simp add: inv_def)

lemma inv_owner_held:
  assumes "inv (s, thrs)" "i < length thrs" "c \<in> {th_this (thrs ! i), th_other (thrs ! i)}"
    "owner s c = Some t"
  shows "\<exists>k<length thrs. th_id (thrs ! k) = t \<and> c \<in> holds (thrs ! k)"
  using assms unfolding inv_def by blast

lemma thread_step_total:
  assumes "thread_ok s th" "thread_step th s \<noteq> Inl Blocks"
  shows "\<exists>pc' s'. thread_step th s = Inr (pc', s')"
  using thread_step_not_undefined [OF assms(1)] thread_step_no_bad_alloc [of th s] assms(2)
  by (cases "thread_step th s") (auto intro: fault.exhaust)

lemma hold_rank_holds: "(hold_rank (th_pc th) = 0) = (holds th = {})"
  by (cases "th_pc th") (auto simp: holds_def)

lemma thread_step_next:
  assumes "thread_step th s = Inr (pc', s')"
  shows "case th_pc th of
      Init_members \<Rightarrow> pc' = Lock_first This_mtx
    | Lock_first w \<Rightarrow> pc' = Try_second w
    | Try_second w \<Rightarrow> (pc' = Transfer \<and> owner s (mtx_of (the_other w) th) = None)
                      \<or> (pc' = Back_off w \<and> owner s (mtx_of (the_other w) th) \<noteq> None)
    | Back_off w \<Rightarrow> pc' = Lock_first (the_other w)
    | Transfer \<Rightarrow> pc' = Unlock_this
    | Unlock_this \<Rightarrow> pc' = Unlock_other
    | Unlock_other \<Rightarrow> pc' = Returned
    | Returned \<Rightarrow> pc' = Returned"
  using assms
  by (auto simp: thread_step_def bind_res_def try_lock_mtx_unfold owner_def
      split: pc.splits sum.splits prod.splits option.splits if_splits)

lemma holder_step:
  assumes I: "inv (s, thrs)" and i: "i < length thrs" and h: "0 < hold_rank (th_pc (thrs ! i))"
  shows "\<exists>pc' s'. thread_step (thrs ! i) s = Inr (pc', s')
           \<and> hold_rank pc' < hold_rank (th_pc (thrs ! i))"
proof -
  have ok: "thread_ok s (thrs ! i)" by (rule inv_thread_ok [OF I i])
  have "thread_step (thrs ! i) s \<noteq> Inl Blocks"
    using thread_step_blocks [OF ok] h by auto
  from thread_step_total [OF ok this] obtain pc' s' where
    st: "thread_step (thrs ! i) s = Inr (pc', s')" by blast
  from thread_step_next [OF st] h have "hold_rank pc' < hold_rank (th_pc (thrs ! i))"
    by (cases "th_pc (thrs ! i)") auto
  with st show ?thesis by blast
qed

lemma unfinished_update:
  assumes "i < length thrs"
  shows "unfinished (thrs[i := (thrs ! i)\<lparr>th_pc := pc'\<rparr>]) + (if th_pc (thrs ! i) = Returned then 0 else 1)
       = unfinished thrs + (if pc' = Returned then 0 else 1)"
  using assms
proof (induction thrs arbitrary: i)
  case Nil
  then show ?case by simp
next
  case (Cons a thrs)
  then show ?case by (cases i) (auto simp: unfinished_def)
qed

lemma hold_sum_update:
  assumes "i < length thrs"
  shows "hold_sum (thrs[i := (thrs ! i)\<lparr>th_pc := pc'\<rparr>]) + hold_rank (th_pc (thrs ! i))
       = hold_sum thrs + hold_rank pc'"
  using assms
proof (induction thrs arbitrary: i)
  case Nil
  then show ?case by simp
next
  case (Cons a thrs)
  then show ?case by (cases i) (auto simp: hold_sum_def)
qed

lemma hold_sum_pos:
  assumes "0 < hold_sum thrs"
  shows "\<exists>i<length thrs. 0 < hold_rank (th_pc (thrs ! i))"
proof (rule ccontr)
  assume "\<not> ?thesis"
  then have "\<forall>x \<in> set (map (\<lambda>th. hold_rank (th_pc th)) thrs). x = 0"
    by (auto simp: in_set_conv_nth)
  then have "hold_sum thrs = 0" unfolding hold_sum_def by (simp add: sum_list_eq_0_iff)
  with assms show False by simp
qed

lemma hold_sum_zero: "hold_sum thrs = 0 \<Longrightarrow> i < length thrs \<Longrightarrow> hold_rank (th_pc (thrs ! i)) = 0"
  unfolding hold_sum_def by (simp add: sum_list_eq_0_iff)

lemma unfinished_zero: "unfinished thrs = 0 \<Longrightarrow> list_all (\<lambda>th. th_pc th = Returned) thrs"
  unfolding unfinished_def by (auto simp: sum_list_eq_0_iff list_all_iff split: if_splits)

lemma unfinished_pos:
  assumes "0 < unfinished thrs"
  shows "\<exists>i<length thrs. th_pc (thrs ! i) \<noteq> Returned"
proof (rule ccontr)
  assume "\<not> ?thesis"
  then have "\<forall>x \<in> set (map (\<lambda>th. if th_pc th = Returned then 0 else (1::nat)) thrs). x = 0"
    by (auto simp: in_set_conv_nth)
  then have "unfinished thrs = 0" unfolding unfinished_def by (simp add: sum_list_eq_0_iff)
  with assms show False by simp
qed

lemma drain:
  assumes "inv x"
  shows "\<exists>y. sys_step\<^sup>*\<^sup>* x y \<and> hold_sum (snd y) = 0 \<and> unfinished (snd y) \<le> unfinished (snd x)"
  using assms
proof (induction "hold_sum (snd x)" arbitrary: x rule: less_induct)
  case less
  obtain s thrs where x: "x = (s, thrs)" by (cases x)
  show ?case
  proof (cases "hold_sum thrs = 0")
    case True
    with x show ?thesis by auto
  next
    case False
    then obtain i where i: "i < length thrs" "0 < hold_rank (th_pc (thrs ! i))"
      using hold_sum_pos [of thrs] by auto
    from holder_step [OF less.prems [unfolded x] i] obtain pc' s' where
      st: "thread_step (thrs ! i) s = Inr (pc', s')"
      and lt: "hold_rank pc' < hold_rank (th_pc (thrs ! i))" by blast
    let ?y = "(s', thrs[i := (thrs ! i)\<lparr>th_pc := pc'\<rparr>])"
    from i(2) have nr: "th_pc (thrs ! i) \<noteq> Returned" by auto
    have step: "sys_step x ?y" unfolding x by (rule step_thread [OF i(1) nr st])
    have I': "inv ?y" by (rule inv_step [OF less.prems step])
    have hs: "hold_sum (snd ?y) < hold_sum (snd x)"
      using hold_sum_update [OF i(1), of pc'] lt by (simp add: x)
    have un: "unfinished (snd ?y) \<le> unfinished (snd x)"
      using unfinished_update [OF i(1), of pc'] nr by (simp add: x split: if_splits)
    from less.hyps [OF hs I'] obtain y where
      "sys_step\<^sup>*\<^sup>* ?y y" "hold_sum (snd y) = 0" "unfinished (snd y) \<le> unfinished (snd ?y)"
      by blast
    with step un show ?thesis
      by (intro exI [of _ y]) (auto intro: converse_rtranclp_into_rtranclp)
  qed
qed


lemma solo_step:
  assumes I: "inv (s, thrs)" and i: "i < length thrs"
    and q: "\<forall>j<length thrs. j \<noteq> i \<longrightarrow> hold_rank (th_pc (thrs ! j)) = 0"
    and nr: "th_pc (thrs ! i) \<noteq> Returned"
  shows "\<exists>pc' s'. thread_step (thrs ! i) s = Inr (pc', s')
           \<and> solo_rank pc' < solo_rank (th_pc (thrs ! i))"
proof -
  let ?th = "thrs ! i"
  have ok: "thread_ok s ?th" by (rule inv_thread_ok [OF I i])
  have free: "owner s c = None"
    if c: "c \<in> {th_this ?th, th_other ?th}" and nh: "c \<notin> holds ?th" for c
  proof (rule ccontr)
    assume "owner s c \<noteq> None"
    then obtain t where "owner s c = Some t" by auto
    from inv_owner_held [OF I i c this] obtain k where
      k: "k < length thrs" "c \<in> holds (thrs ! k)" by blast
    with nh have "k \<noteq> i" by auto
    with q k(1) have "hold_rank (th_pc (thrs ! k)) = 0" by simp
    with k(2) show False by (simp add: hold_rank_holds)
  qed
  have nb: "thread_step ?th s \<noteq> Inl Blocks"
  proof
    assume "thread_step ?th s = Inl Blocks"
    from thread_step_blocks [OF ok this] obtain w t' where
      w: "th_pc ?th = Lock_first w" "owner s (mtx_of w ?th) = Some t'" by blast
    from w(1) have "mtx_of w ?th \<notin> holds ?th" by (simp add: holds_def)
    from free [OF mtx_of_in this] w(2) show False by simp
  qed
  from thread_step_total [OF ok nb] obtain pc' s' where
    st: "thread_step ?th s = Inr (pc', s')" by blast
  have "solo_rank pc' < solo_rank (th_pc ?th)"
  proof (cases "th_pc ?th")
    case (Try_second w)
    from ok have "mtx_of (the_other w) ?th \<noteq> mtx_of w ?th"
      by (intro mtx_of_the_other) (simp add: thread_ok_def)
    with Try_second have "mtx_of (the_other w) ?th \<notin> holds ?th" by (simp add: holds_def)
    from free [OF mtx_of_in this] thread_step_next [OF st] Try_second
    show ?thesis by simp
  qed (use thread_step_next [OF st] nr in auto)
  with st show ?thesis by blast
qed

lemma solo_run:
  assumes "inv (s, thrs)" and "i < length thrs"
    and "\<forall>j<length thrs. j \<noteq> i \<longrightarrow> hold_rank (th_pc (thrs ! j)) = 0"
  shows "\<exists>s'. sys_step\<^sup>*\<^sup>* (s, thrs) (s', thrs[i := (thrs ! i)\<lparr>th_pc := Returned\<rparr>])"
  using assms
proof (induction "solo_rank (th_pc (thrs ! i))" arbitrary: s thrs rule: less_induct)
  case less
  show ?case
  proof (cases "th_pc (thrs ! i) = Returned")
    case True
    then have "thrs[i := (thrs ! i)\<lparr>th_pc := Returned\<rparr>] = thrs"
      by (metis list_update_id thread.surjective thread.update_convs(4) thread.select_convs(4)
          thread.equality)
    then show ?thesis by auto
  next
    case False
    from solo_step [OF less.prems False] obtain pc' s' where
      st: "thread_step (thrs ! i) s = Inr (pc', s')"
      and lt: "solo_rank pc' < solo_rank (th_pc (thrs ! i))" by blast
    let ?thrs = "thrs[i := (thrs ! i)\<lparr>th_pc := pc'\<rparr>]"
    have step: "sys_step (s, thrs) (s', ?thrs)"
      by (rule step_thread [OF less.prems(2) False st])
    have I': "inv (s', ?thrs)" by (rule inv_step [OF less.prems(1) step])
    have lt': "solo_rank (th_pc (?thrs ! i)) < solo_rank (th_pc (thrs ! i))"
      using lt less.prems(2) by simp
    have q': "\<forall>j<length ?thrs. j \<noteq> i \<longrightarrow> hold_rank (th_pc (?thrs ! j)) = 0"
      using less.prems(3) by simp
    from less.hyps [OF lt' I' _ q'] less.prems(2) obtain s'' where
      "sys_step\<^sup>*\<^sup>* (s', ?thrs) (s'', ?thrs[i := (?thrs ! i)\<lparr>th_pc := Returned\<rparr>])" by auto
    moreover have "?thrs[i := (?thrs ! i)\<lparr>th_pc := Returned\<rparr>] = thrs[i := (thrs ! i)\<lparr>th_pc := Returned\<rparr>]"
      using less.prems(2) by simp
    ultimately show ?thesis using step
      by (auto intro: converse_rtranclp_into_rtranclp)
  qed
qed

lemma can_complete:
  assumes "inv x"
  shows "\<exists>y. sys_step\<^sup>*\<^sup>* x y \<and> all_returned y"
  using assms
proof (induction "unfinished (snd x)" arbitrary: x rule: less_induct)
  case less
  from drain [OF less.prems] obtain y where
    y: "sys_step\<^sup>*\<^sup>* x y" "hold_sum (snd y) = 0" "unfinished (snd y) \<le> unfinished (snd x)"
    by blast
  have Iy: "inv y" by (rule inv_reachable [OF y(1) less.prems])
  obtain s thrs where yy: "y = (s, thrs)" by (cases y)
  show ?case
  proof (cases "unfinished thrs = 0")
    case True
    with y(1) yy show ?thesis
      by (intro exI [of _ y]) (simp add: all_returned_def unfinished_zero)
  next
    case False
    then obtain i where i: "i < length thrs" "th_pc (thrs ! i) \<noteq> Returned"
      using unfinished_pos [of thrs] by auto
    have q: "\<forall>j<length thrs. j \<noteq> i \<longrightarrow> hold_rank (th_pc (thrs ! j)) = 0"
      using y(2) yy hold_sum_zero by auto
    from solo_run [OF Iy [unfolded yy] i(1) q] obtain s' where
      run: "sys_step\<^sup>*\<^sup>* (s, thrs) (s', thrs[i := (thrs ! i)\<lparr>th_pc := Returned\<rparr>])" by blast
    let ?z = "(s', thrs[i := (thrs ! i)\<lparr>th_pc := Returned\<rparr>])"
    have Iz: "inv ?z" using inv_reachable [OF run] Iy yy by simp
    have "unfinished (snd ?z) < unfinished thrs"
      using unfinished_update [OF i(1), of Returned] i(2) by simp
    with y(3) yy have lt: "unfinished (snd ?z) < unfinished (snd x)" by simp
    from less.hyps [OF lt Iz] obtain z' where "sys_step\<^sup>*\<^sup>* ?z z'" "all_returned z'" by blast
    with y(1) run yy show ?thesis
      by (intro exI [of _ z']) (auto intro: rtranclp_trans)
  qed
qed

subsection \<open>A completed run is a serial run of the move operations\<close>

text \<open>
  The threads that have made their transfer, taken in the order of their transfers,
  are a serial run of the move operations of the sequential model. The world \<open>t\<close> of
  that serial run and the world \<open>s\<close> of the concurrent run hold the same values in all
  containers but the destinations of move constructors that are built and not yet
  assigned; these do not exist in \<open>t\<close> yet. Only the transfer step adds a thread to the
  serial run: it runs with both mutexes held, so the two containers hold in \<open>s\<close> what
  they hold in \<open>t\<close>.
\<close>

text \<open>Effects of the primitives on the values of the containers.\<close>

lemma lock_mtx_vals:
  assumes "lock_mtx t c s = Inr s'"
  shows "heap s' = heap s \<and> vals s' = vals s \<and> (\<forall>c'. c' \<noteq> c \<longrightarrow> conts s' c' = conts s c')"
  using assms
  by (auto simp: lock_mtx_unfold vals_def fun_eq_iff split: option.splits if_splits)

lemma unlock_mtx_vals:
  assumes "unlock_mtx t c s = Inr s'"
  shows "heap s' = heap s \<and> vals s' = vals s \<and> (\<forall>c'. c' \<noteq> c \<longrightarrow> conts s' c' = conts s c')"
  using assms
  by (auto simp: unlock_mtx_unfold vals_def fun_eq_iff split: option.splits if_splits)

lemma try_lock_mtx_vals:
  assumes "try_lock_mtx t c s = Inr (ok, s')"
  shows "heap s' = heap s \<and> vals s' = vals s \<and> (\<forall>c'. c' \<noteq> c \<longrightarrow> conts s' c' = conts s c')"
  using assms
  by (auto simp: try_lock_mtx_unfold vals_def fun_eq_iff split: option.splits if_splits)

lemma move_m_value_vals:
  assumes "this \<noteq> other" and "move_m_value this other s = Inr s'"
  shows "heap s' = heap s \<and> (\<forall>c. c \<noteq> this \<and> c \<noteq> other \<longrightarrow> conts s' c = conts s c)
     \<and> (\<exists>vo. vals s other = Some vo
          \<and> vals s' other = Some \<lparr>ptr = None, del = del vo\<rparr>
          \<and> vals s' this = Some \<lparr>ptr = ptr vo, del = del vo\<rparr>)"
  using assms
  by (auto simp: move_m_value_def vals_def std_release_def std_reset_def Let_def upd_simps
      split: option.splits prod.splits)

lemma default_ctor_vals:
  "heap (unique_ptr_default_ctor c s) = heap s"
  "vals (unique_ptr_default_ctor c s) = (vals s)(c \<mapsto> std_unique_ptr_default)"
  "c' \<noteq> c \<Longrightarrow> conts (unique_ptr_default_ctor c s) c' = conts s c'"
  by (auto simp: unique_ptr_default_ctor_def vals_def fun_eq_iff)

lemma thread_step_vals:
  assumes "thread_step th s = Inr (pc', s')" and "th_pc th \<noteq> Init_members" and "th_pc th \<noteq> Transfer"
  shows "heap s' = heap s \<and> vals s' = vals s
     \<and> (\<forall>c. c \<noteq> th_this th \<and> c \<noteq> th_other th \<longrightarrow> conts s' c = conts s c)"
proof (cases "th_pc th")
  case (Lock_first w)
  with assms(1) obtain "lock_mtx (th_id th) (mtx_of w th) s = Inr s'"
    by (auto simp: thread_step_def bind_res_def split: sum.splits)
  from lock_mtx_vals [OF this] mtx_of_in [of w th] show ?thesis by auto
next
  case (Try_second w)
  with assms(1) obtain ok where "try_lock_mtx (th_id th) (mtx_of (the_other w) th) s = Inr (ok, s')"
    by (auto simp: thread_step_def bind_res_def split: sum.splits)
  from try_lock_mtx_vals [OF this] mtx_of_in [of "the_other w" th] show ?thesis by auto
next
  case (Back_off w)
  with assms(1) obtain "unlock_mtx (th_id th) (mtx_of w th) s = Inr s'"
    by (auto simp: thread_step_def bind_res_def split: sum.splits)
  from unlock_mtx_vals [OF this] mtx_of_in [of w th] show ?thesis by auto
next
  case Unlock_this
  with assms(1) obtain "unlock_mtx (th_id th) (th_this th) s = Inr s'"
    by (auto simp: thread_step_def bind_res_def split: sum.splits)
  from unlock_mtx_vals [OF this] show ?thesis by auto
next
  case Unlock_other
  with assms(1) obtain "unlock_mtx (th_id th) (th_other th) s = Inr s'"
    by (auto simp: thread_step_def bind_res_def split: sum.splits)
  from unlock_mtx_vals [OF this] show ?thesis by auto
next
  case Returned
  with assms(1) show ?thesis by (simp add: thread_step_def)
qed (use assms in auto)

lemma serial_append: "serial (xs @ ys) s = bind_res (serial xs s) (serial ys)"
  by (induction xs arbitrary: s) (auto simp: bind_res_def split: sum.splits)

lemma seq_move_result:
  assumes "th_this th \<noteq> th_other th" and "conts t (th_other th) = Some u" and "m_mtx u = None"
    and "th_pc th \<noteq> Init_members \<Longrightarrow> \<exists>d. conts t (th_this th) = Some d \<and> m_mtx d = None"
  shows "\<exists>t'. seq_move th t = Inr t' \<and> heap t' = heap t
     \<and> conts t' = (conts t)
          (th_this th \<mapsto> \<lparr>m_mtx = None, m_value = \<lparr>ptr = ptr (m_value u), del = del (m_value u)\<rparr>\<rparr>,
           th_other th \<mapsto> \<lparr>m_mtx = None, m_value = \<lparr>ptr = None, del = del (m_value u)\<rparr>\<rparr>)"
proof (cases "th_pc th = Init_members")
  case True
  then show ?thesis
    using move_ctor_result [OF assms(1-3), of "th_id th"] by (simp add: seq_move_def)
next
  case False
  with assms(4) obtain d where d: "conts t (th_this th) = Some d" "m_mtx d = None" by blast
  from False have "seq_move th t = unique_ptr_move_assign (th_id th) (th_this th) (th_other th) t"
    by (cases "th_pc th") (simp_all add: seq_move_def)
  then show ?thesis
    using move_assign_result [OF assms(1) d(1) assms(2) d(2) assms(3), of "th_id th"] by simp
qed

lemma nth_update_static:
  assumes "i < length thrs"
  shows "th_this (thrs[i := (thrs ! i)\<lparr>th_pc := pc'\<rparr>] ! j) = th_this (thrs ! j)"
    and "th_other (thrs[i := (thrs ! i)\<lparr>th_pc := pc'\<rparr>] ! j) = th_other (thrs ! j)"
    and "th_id (thrs[i := (thrs ! i)\<lparr>th_pc := pc'\<rparr>] ! j) = th_id (thrs ! j)"
  using assms by (cases "j = i"; simp)+

lemma nth_update_pc:
  assumes "i < length thrs"
  shows "th_pc (thrs[i := (thrs ! i)\<lparr>th_pc := pc'\<rparr>] ! j) = (if j = i then pc' else th_pc (thrs ! j))"
  using assms by simp

lemma same_threads_update:
  assumes "same_threads thrs0 thrs" "i < length thrs" "pc' \<noteq> Init_members"
  shows "same_threads thrs0 (thrs[i := (thrs ! i)\<lparr>th_pc := pc'\<rparr>])"
  using assms unfolding same_threads_def
  by (simp add: nth_update_static nth_update_pc)

lemma pending_split:
  assumes "i < length thrs"
  shows "pending thrs0 thrs c =
     ((\<exists>j<length thrs. j \<noteq> i \<and> th_pc (thrs0 ! j) = Init_members \<and> th_this (thrs ! j) = c
          \<and> mid (th_pc (thrs ! j)))
      \<or> (th_pc (thrs0 ! i) = Init_members \<and> th_this (thrs ! i) = c \<and> mid (th_pc (thrs ! i))))"
  using assms unfolding pending_def by blast

lemma pending_update:
  assumes "i < length thrs"
  shows "pending thrs0 (thrs[i := (thrs ! i)\<lparr>th_pc := pc'\<rparr>]) c =
     ((\<exists>j<length thrs. j \<noteq> i \<and> th_pc (thrs0 ! j) = Init_members \<and> th_this (thrs ! j) = c
          \<and> mid (th_pc (thrs ! j)))
      \<or> (th_pc (thrs0 ! i) = Init_members \<and> th_this (thrs ! i) = c \<and> mid pc'))"
proof -
  let ?thrs' = "thrs[i := (thrs ! i)\<lparr>th_pc := pc'\<rparr>]"
  have i': "i < length ?thrs'" using assms by simp
  show ?thesis
    unfolding pending_split [OF i', of thrs0 c]
    using assms by (simp add: nth_update_static) (metis nth_list_update_neq)
qed

lemma past_update:
  assumes "i < length thrs"
  shows "{j. j < length (thrs[i := (thrs ! i)\<lparr>th_pc := pc'\<rparr>])
             \<and> past (th_pc (thrs[i := (thrs ! i)\<lparr>th_pc := pc'\<rparr>] ! j))}
       = (if past pc' then insert i {j. j < length thrs \<and> past (th_pc (thrs ! j))}
          else {j. j < length thrs \<and> past (th_pc (thrs ! j))} - {i})"
  using assms by (auto simp: nth_list_update)

lemma owner_conts: "owner s c = (case conts s c of None \<Rightarrow> None | Some u \<Rightarrow> m_mtx u)"
  by (simp add: owner_def split: option.splits)

lemma live_conts: "(c \<in> live s) = (conts s c \<noteq> None)"
  by (auto simp: live_def)

lemma initial_static:
  assumes "initial (s0, thrs0)" and "j < length thrs0"
  shows "th_this (thrs0 ! j) \<noteq> th_other (thrs0 ! j)"
    and "th_other (thrs0 ! j) \<in> live s0"
    and "(th_this (thrs0 ! j) \<in> live s0) = (th_pc (thrs0 ! j) \<noteq> Init_members)"
    and "\<not> past (th_pc (thrs0 ! j))"
    and "owner s0 (th_this (thrs0 ! j)) = None"
    and "owner s0 (th_other (thrs0 ! j)) = None"
proof -
  from assms(2) have m: "thrs0 ! j \<in> set thrs0" by simp
  from assms(1) have a: "\<forall>th\<in>set thrs0. th_this th \<noteq> th_other th \<and> th_other th \<in> live s0
       \<and> (if th_this th \<in> live s0 then th_pc th = Lock_first This_mtx else th_pc th = Init_members)"
    and b: "\<forall>c\<in>set (map th_this thrs0 @ map th_other thrs0). owner s0 c = None"
    by (simp_all add: initial_def list_all_iff)
  from a m have c: "th_this (thrs0 ! j) \<noteq> th_other (thrs0 ! j)" "th_other (thrs0 ! j) \<in> live s0"
    "if th_this (thrs0 ! j) \<in> live s0 then th_pc (thrs0 ! j) = Lock_first This_mtx
     else th_pc (thrs0 ! j) = Init_members"
    by blast+
  show "th_this (thrs0 ! j) \<noteq> th_other (thrs0 ! j)" "th_other (thrs0 ! j) \<in> live s0" by (rule c)+
  show "(th_this (thrs0 ! j) \<in> live s0) = (th_pc (thrs0 ! j) \<noteq> Init_members)"
    using c(3) by (auto split: if_splits)
  show "\<not> past (th_pc (thrs0 ! j))" using c(3) by (auto split: if_splits)
  show "owner s0 (th_this (thrs0 ! j)) = None" "owner s0 (th_other (thrs0 ! j)) = None"
    using b m by auto
qed

lemma initial_targets:
  assumes "initial (s0, thrs0)" and "i < length thrs0" and "j < length thrs0" and "i \<noteq> j"
    and "th_pc (thrs0 ! i) = Init_members" and "th_pc (thrs0 ! j) = Init_members"
  shows "th_this (thrs0 ! i) \<noteq> th_this (thrs0 ! j)"
proof -
  from assms(1) have "distinct (map th_this (filter (\<lambda>th. th_pc th = Init_members) thrs0))"
    by (simp add: initial_def)
  from distinct_map_filter_nth [OF this assms(2,3,4)] assms(5,6) show ?thesis by simp
qed

lemma serial_inv_initial:
  assumes "initial (s0, thrs0)"
  shows "serial_inv (s0, thrs0) (s0, thrs0) [] s0"
  using initial_static [OF assms]
  by (auto simp: serial_inv_def same_threads_def pending_def)

lemma serial_inv_step:
  assumes ini: "initial (s0, thrs0)"
    and I: "inv (s, thrs)"
    and K: "serial_inv (s0, thrs0) (s, thrs) p t"
    and i: "i < length thrs"
    and st: "thread_step (thrs ! i) s = Inr (pc', s')"
  shows "\<exists>p' t'. serial_inv (s0, thrs0) (s', thrs[i := (thrs ! i)\<lparr>th_pc := pc'\<rparr>]) p' t'"
proof -
  let ?th = "thrs ! i"
  let ?thrs' = "thrs[i := ?th\<lparr>th_pc := pc'\<rparr>]"
  have ok: "thread_ok s ?th" by (rule inv_thread_ok [OF I i])
  from K have same: "same_threads thrs0 thrs"
    and dp: "distinct p"
    and sp: "set p = {j. j < length thrs \<and> past (th_pc (thrs ! j))}"
    and ser: "serial (map (\<lambda>i. thrs0 ! i) p) s0 = Inr t"
    and hp: "heap t = heap s"
    and Ke: "\<And>c. \<not> pending thrs0 thrs c \<Longrightarrow> vals s c = vals t c"
    and Kf: "\<And>c. pending thrs0 thrs c \<Longrightarrow> conts t c = None"
    and Kg: "\<And>j. j < length thrs \<Longrightarrow> owner t (th_this (thrs ! j)) = None \<and> owner t (th_other (thrs ! j)) = None"
    and Kh: "\<And>c. (\<forall>j<length thrs. c \<noteq> th_this (thrs ! j) \<and> c \<noteq> th_other (thrs ! j)) \<Longrightarrow> conts s c = conts t c"
    by (simp_all add: serial_inv_def)
  from same have len: "length thrs = length thrs0"
    and st_this: "\<And>j. j < length thrs \<Longrightarrow> th_this (thrs ! j) = th_this (thrs0 ! j)"
    and st_other: "\<And>j. j < length thrs \<Longrightarrow> th_other (thrs ! j) = th_other (thrs0 ! j)"
    and st_pc: "\<And>j. j < length thrs \<Longrightarrow> th_pc (thrs ! j) = Init_members \<Longrightarrow> th_pc (thrs0 ! j) = Init_members"
    by (simp_all add: same_threads_def)
  have i0: "i < length thrs0" using i len by simp
  have pend_not_live: "c \<notin> live s0" if "pending thrs0 thrs c" for c
  proof -
    from that obtain j where j: "j < length thrs" "th_pc (thrs0 ! j) = Init_members" "th_this (thrs ! j) = c"
      by (auto simp: pending_def)
    from initial_static(3) [OF ini, of j] j len st_this [of j] show ?thesis by simp
  qed
  have other_not_pending: "\<not> pending thrs0 thrs (th_other ?th)"
    using pend_not_live [of "th_other ?th"] initial_static(2) [OF ini i0] st_other [OF i] by auto
  have ne: "th_this ?th \<noteq> th_other ?th" using ok by (simp add: thread_ok_def)
  have pc'_ne: "pc' \<noteq> Init_members" using thread_step_effect [OF ok st] by simp
  have same': "same_threads thrs0 ?thrs'" by (rule same_threads_update [OF same i pc'_ne])
  have nx: "case th_pc ?th of
      Init_members \<Rightarrow> pc' = Lock_first This_mtx
    | Lock_first w \<Rightarrow> pc' = Try_second w
    | Try_second w \<Rightarrow> (pc' = Transfer \<and> owner s (mtx_of (the_other w) ?th) = None)
                      \<or> (pc' = Back_off w \<and> owner s (mtx_of (the_other w) ?th) \<noteq> None)
    | Back_off w \<Rightarrow> pc' = Lock_first (the_other w)
    | Transfer \<Rightarrow> pc' = Unlock_this
    | Unlock_this \<Rightarrow> pc' = Unlock_other
    | Unlock_other \<Rightarrow> pc' = Returned
    | Returned \<Rightarrow> pc' = Returned"
    by (rule thread_step_next [OF st])
  consider (init) "th_pc ?th = Init_members" | (transfer) "th_pc ?th = Transfer"
    | (other) "th_pc ?th \<noteq> Init_members" "th_pc ?th \<noteq> Transfer" by blast
  then show ?thesis
  proof cases
    case other
    from thread_step_vals [OF st other]
    have hs: "heap s' = heap s" and vs: "vals s' = vals s"
      and cs: "\<And>c. c \<noteq> th_this ?th \<Longrightarrow> c \<noteq> th_other ?th \<Longrightarrow> conts s' c = conts s c" by auto
    from nx other have pm: "past pc' = past (th_pc ?th)" "mid pc' = mid (th_pc ?th)"
      by (auto split: pc.splits)
    have pend': "pending thrs0 ?thrs' c = pending thrs0 thrs c" for c
      unfolding pending_update [OF i] pending_split [OF i, of thrs0 c] pm ..
    have past': "{j. j < length ?thrs' \<and> past (th_pc (?thrs' ! j))}
       = {j. j < length thrs \<and> past (th_pc (thrs ! j))}"
      unfolding past_update [OF i] using pm i by auto
    have "serial_inv (s0, thrs0) (s', ?thrs') p t"
      unfolding serial_inv_def prod.case
    proof (intro conjI allI impI)
      show "same_threads thrs0 ?thrs'" by (rule same')
      show "distinct p" by (rule dp)
      show "set p = {j. j < length ?thrs' \<and> past (th_pc (?thrs' ! j))}"
        unfolding past' by (rule sp)
      show "serial (map (\<lambda>i. thrs0 ! i) p) s0 = Inr t" by (rule ser)
      show "heap t = heap s'" using hp hs by simp
    next
      fix c assume "\<not> pending thrs0 ?thrs' c"
      then show "vals s' c = vals t c" using Ke [of c] vs pend' by simp
    next
      fix c assume "pending thrs0 ?thrs' c"
      then show "conts t c = None" using Kf [of c] pend' by simp
    next
      fix j assume "j < length ?thrs'"
      then show "owner t (th_this (?thrs' ! j)) = None" using Kg [of j] i
        by (simp add: nth_update_static)
    next
      fix j assume "j < length ?thrs'"
      then show "owner t (th_other (?thrs' ! j)) = None" using Kg [of j] i
        by (simp add: nth_update_static)
    next
      fix c assume a: "\<forall>j<length ?thrs'. c \<noteq> th_this (?thrs' ! j) \<and> c \<noteq> th_other (?thrs' ! j)"
      then have a': "\<forall>j<length thrs. c \<noteq> th_this (thrs ! j) \<and> c \<noteq> th_other (thrs ! j)"
        using i by (simp add: nth_update_static)
      with i have "c \<noteq> th_this ?th" "c \<noteq> th_other ?th" by auto
      then show "conts s' c = conts t c" using cs [of c] Kh [of c] a' by simp
    qed
    then show ?thesis by blast
  next
    case init
    with st have s': "s' = unique_ptr_default_ctor (th_this ?th) s" and pc': "pc' = Lock_first This_mtx"
      by (auto simp: thread_step_def)
    have pc0: "th_pc (thrs0 ! i) = Init_members" by (rule st_pc [OF i init])
    have hs: "heap s' = heap s" by (simp add: s' default_ctor_vals)
    have pend': "pending thrs0 ?thrs' c = (pending thrs0 thrs c \<or> c = th_this ?th)" for c
      unfolding pending_update [OF i] pending_split [OF i, of thrs0 c] using init pc0 pc' by auto
    have past': "{j. j < length ?thrs' \<and> past (th_pc (?thrs' ! j))}
       = {j. j < length thrs \<and> past (th_pc (thrs ! j))}"
      unfolding past_update [OF i] using init pc' i by auto
    have this_not_pending: "\<not> pending thrs0 thrs (th_this ?th)"
    proof
      assume "pending thrs0 thrs (th_this ?th)"
      then obtain j where j: "j < length thrs" "th_pc (thrs0 ! j) = Init_members"
        "th_this (thrs ! j) = th_this ?th" "mid (th_pc (thrs ! j))"
        by (auto simp: pending_def)
      from j(4) init have "j \<noteq> i" by auto
      from initial_targets [OF ini i0 _ this [symmetric] pc0 j(2)] j(1,3) len st_this [of j] st_this [OF i]
      show False by simp
    qed
    have this_dead: "conts s (th_this ?th) = None"
      using ok init by (simp add: thread_ok_def live_conts)
    have "serial_inv (s0, thrs0) (s', ?thrs') p t"
      unfolding serial_inv_def prod.case
    proof (intro conjI allI impI)
      show "same_threads thrs0 ?thrs'" by (rule same')
      show "distinct p" by (rule dp)
      show "set p = {j. j < length ?thrs' \<and> past (th_pc (?thrs' ! j))}"
        unfolding past' by (rule sp)
      show "serial (map (\<lambda>i. thrs0 ! i) p) s0 = Inr t" by (rule ser)
      show "heap t = heap s'" using hp hs by simp
    next
      fix c assume "\<not> pending thrs0 ?thrs' c"
      then have "\<not> pending thrs0 thrs c" "c \<noteq> th_this ?th" using pend' by auto
      then show "vals s' c = vals t c" using Ke [of c] by (simp add: s' default_ctor_vals)
    next
      fix c assume "pending thrs0 ?thrs' c"
      then consider "pending thrs0 thrs c" | "c = th_this ?th" using pend' by auto
      then show "conts t c = None"
      proof cases
        case 1 then show ?thesis by (rule Kf)
      next
        case 2
        from Ke [OF this_not_pending] this_dead have "vals t (th_this ?th) = None"
          by (simp add: vals_def)
        then show ?thesis using 2 by (simp add: vals_def)
      qed
    next
      fix j assume "j < length ?thrs'"
      then show "owner t (th_this (?thrs' ! j)) = None" using Kg [of j] i
        by (simp add: nth_update_static)
    next
      fix j assume "j < length ?thrs'"
      then show "owner t (th_other (?thrs' ! j)) = None" using Kg [of j] i
        by (simp add: nth_update_static)
    next
      fix c assume a: "\<forall>j<length ?thrs'. c \<noteq> th_this (?thrs' ! j) \<and> c \<noteq> th_other (?thrs' ! j)"
      then have a': "\<forall>j<length thrs. c \<noteq> th_this (thrs ! j) \<and> c \<noteq> th_other (thrs ! j)"
        using i by (simp add: nth_update_static)
      with i have "c \<noteq> th_this ?th" by auto
      then show "conts s' c = conts t c" using Kh [of c] a' by (simp add: s' default_ctor_vals)
    qed
    then show ?thesis by blast
  next
    case transfer
    with st have mv: "move_m_value (th_this ?th) (th_other ?th) s = Inr s'" and pc': "pc' = Unlock_this"
      by (auto simp: thread_step_def bind_res_def split: sum.splits)
    from move_m_value_vals [OF ne mv] obtain vo where
      hs: "heap s' = heap s"
      and cs: "\<And>c. c \<noteq> th_this ?th \<Longrightarrow> c \<noteq> th_other ?th \<Longrightarrow> conts s' c = conts s c"
      and vo: "vals s (th_other ?th) = Some vo"
        "vals s' (th_other ?th) = Some \<lparr>ptr = None, del = del vo\<rparr>"
        "vals s' (th_this ?th) = Some \<lparr>ptr = ptr vo, del = del vo\<rparr>"
      by auto
    let ?orig = "thrs0 ! i"
    have th0: "th_this ?orig = th_this ?th" "th_other ?orig = th_other ?th"
      using st_this [OF i] st_other [OF i] by simp_all
    from Ke [OF other_not_pending] vo(1) obtain u where
      u: "conts t (th_other ?th) = Some u" "m_value u = vo"
      by (auto simp: vals_def)
    from Kg [OF i] u(1) have mu: "m_mtx u = None" by (simp add: owner_conts)
    have d: "\<exists>d. conts t (th_this ?orig) = Some d \<and> m_mtx d = None" if "th_pc ?orig \<noteq> Init_members"
    proof -
      from that initial_static(3) [OF ini i0] have "th_this ?th \<in> live s0" by (simp add: th0)
      with pend_not_live have "\<not> pending thrs0 thrs (th_this ?th)" by blast
      from Ke [OF this] have "vals s (th_this ?th) = vals t (th_this ?th)" .
      moreover from ok transfer have "conts s (th_this ?th) \<noteq> None"
        by (simp add: thread_ok_def live_conts)
      ultimately obtain d where d: "conts t (th_this ?th) = Some d"
        by (cases "conts t (th_this ?th)") (auto simp: vals_def)
      with Kg [OF i] have "m_mtx d = None" by (simp add: owner_conts)
      with d show ?thesis by (simp add: th0)
    qed
    from seq_move_result [of ?orig t u] ne u(1) mu d obtain t' where
      t': "seq_move ?orig t = Inr t'" "heap t' = heap t"
        "conts t' = (conts t)
          (th_this ?th \<mapsto> \<lparr>m_mtx = None, m_value = \<lparr>ptr = ptr vo, del = del vo\<rparr>\<rparr>,
           th_other ?th \<mapsto> \<lparr>m_mtx = None, m_value = \<lparr>ptr = None, del = del vo\<rparr>\<rparr>)"
      by (auto simp: th0 u(2))
    have pend'1: "pending thrs0 ?thrs' c \<Longrightarrow> pending thrs0 thrs c" for c
      unfolding pending_update [OF i] pending_split [OF i, of thrs0 c] using pc' by auto
    have pend'2: "pending thrs0 thrs c \<Longrightarrow> pending thrs0 ?thrs' c \<or> c = th_this ?th" for c
      unfolding pending_update [OF i] pending_split [OF i, of thrs0 c] using pc' by auto
    have pend'3: "c \<noteq> th_this ?th \<and> c \<noteq> th_other ?th" if "pending thrs0 ?thrs' c" for c
    proof -
      from that pc' obtain j where j: "j < length thrs" "j \<noteq> i" "th_pc (thrs0 ! j) = Init_members"
        "th_this (thrs ! j) = c"
        unfolding pending_update [OF i] by auto
      have cl: "c \<notin> live s0" using pend_not_live [OF pend'1 [OF that]] .
      have "c \<noteq> th_other ?th" using cl initial_static(2) [OF ini i0] th0 by auto
      moreover have "c \<noteq> th_this ?th"
      proof (cases "th_pc ?orig = Init_members")
        case True
        from initial_targets [OF ini i0 _ j(2) [symmetric] True j(3)] j(1,4) len st_this [of j] th0
        show ?thesis by auto
      next
        case False
        with initial_static(3) [OF ini i0] have "th_this ?th \<in> live s0" by (simp add: th0)
        with cl show ?thesis by auto
      qed
      ultimately show ?thesis by simp
    qed
    have past': "{j. j < length ?thrs' \<and> past (th_pc (?thrs' ! j))}
       = insert i {j. j < length thrs \<and> past (th_pc (thrs ! j))}"
      unfolding past_update [OF i] using pc' by simp
    have inp: "i \<notin> set p" using sp transfer by simp
    have "serial_inv (s0, thrs0) (s', ?thrs') (p @ [i]) t'"
      unfolding serial_inv_def prod.case
    proof (intro conjI allI impI)
      show "same_threads thrs0 ?thrs'" by (rule same')
      show "distinct (p @ [i])" using dp inp by simp
      show "set (p @ [i]) = {j. j < length ?thrs' \<and> past (th_pc (?thrs' ! j))}"
        unfolding past' using sp by simp
      show "serial (map (\<lambda>i. thrs0 ! i) (p @ [i])) s0 = Inr t'"
        using ser t'(1) by (simp add: serial_append)
      show "heap t' = heap s'" using hp hs t'(2) by simp
    next
      fix c assume np: "\<not> pending thrs0 ?thrs' c"
      show "vals s' c = vals t' c"
      proof (cases "c = th_this ?th \<or> c = th_other ?th")
        case True
        then show ?thesis using vo ne by (auto simp: vals_def t'(3))
      next
        case False
        with np pend'2 [of c] have "\<not> pending thrs0 thrs c" by auto
        from Ke [OF this] False cs [of c] show ?thesis by (simp add: vals_def t'(3))
      qed
    next
      fix c assume p: "pending thrs0 ?thrs' c"
      from pend'3 [OF p] Kf [OF pend'1 [OF p]] show "conts t' c = None" by (simp add: t'(3))
    next
      fix j assume "j < length ?thrs'"
      then show "owner t' (th_this (?thrs' ! j)) = None" using Kg [of j] i
        by (simp add: nth_update_static owner_conts t'(3))
    next
      fix j assume "j < length ?thrs'"
      then show "owner t' (th_other (?thrs' ! j)) = None" using Kg [of j] i
        by (simp add: nth_update_static owner_conts t'(3))
    next
      fix c assume a: "\<forall>j<length ?thrs'. c \<noteq> th_this (?thrs' ! j) \<and> c \<noteq> th_other (?thrs' ! j)"
      then have a': "\<forall>j<length thrs. c \<noteq> th_this (thrs ! j) \<and> c \<noteq> th_other (thrs ! j)"
        using i by (simp add: nth_update_static)
      with i have "c \<noteq> th_this ?th" "c \<noteq> th_other ?th" by auto
      then show "conts s' c = conts t' c" using cs [of c] Kh [of c] a' by (simp add: t'(3))
    qed
    then show ?thesis by blast
  qed
qed

lemma serial_inv_reachable:
  assumes "initial x0" and "sys_step\<^sup>*\<^sup>* x0 x"
  shows "\<exists>p t. serial_inv x0 x p t"
  using assms(2)
proof (induction rule: rtranclp_induct)
  case base
  obtain s0 thrs0 where x0: "x0 = (s0, thrs0)" by (cases x0)
  with serial_inv_initial [of s0 thrs0] assms(1) show ?case by blast
next
  case (step y z)
  obtain s0 thrs0 where x0: "x0 = (s0, thrs0)" by (cases x0)
  from step.IH obtain p t where K: "serial_inv x0 y p t" by blast
  have I: "inv y" by (rule inv_reachable [OF step.hyps(1) initial_inv [OF assms(1)]])
  from step.hyps(2) show ?case
  proof cases
    case (step_thread i thrs s pc' s')
    from serial_inv_step [of s0 thrs0 s thrs p t i pc' s'] assms(1) I K step_thread x0
    show ?thesis by simp
  qed
qed

lemma holds_returned: "th_pc th = Returned \<Longrightarrow> holds th = {}"
  by (simp add: holds_def)

lemma completed_serial:
  assumes ini: "initial (s0, thrs0)" and re: "sys_step\<^sup>*\<^sup>* (s0, thrs0) (s, thrs)"
    and fin: "all_returned (s, thrs)"
  shows "\<exists>p t. distinct p \<and> set p = {..<length thrs0}
     \<and> serial (map (\<lambda>i. thrs0 ! i) p) s0 = Inr t \<and> conts t = conts s \<and> heap t = heap s"
proof -
  from serial_inv_reachable [OF ini re] obtain p t where K: "serial_inv (s0, thrs0) (s, thrs) p t"
    by blast
  have I: "inv (s, thrs)" by (rule inv_reachable [OF re initial_inv [OF ini]])
  from fin have ret: "\<And>j. j < length thrs \<Longrightarrow> th_pc (thrs ! j) = Returned"
    by (simp add: all_returned_def list_all_length)
  from K have same: "same_threads thrs0 thrs"
    and dp: "distinct p"
    and sp: "set p = {j. j < length thrs \<and> past (th_pc (thrs ! j))}"
    and ser: "serial (map (\<lambda>i. thrs0 ! i) p) s0 = Inr t"
    and hp: "heap t = heap s"
    and Ke: "\<And>c. \<not> pending thrs0 thrs c \<Longrightarrow> vals s c = vals t c"
    and Kg: "\<And>j. j < length thrs \<Longrightarrow> owner t (th_this (thrs ! j)) = None \<and> owner t (th_other (thrs ! j)) = None"
    and Kh: "\<And>c. (\<forall>j<length thrs. c \<noteq> th_this (thrs ! j) \<and> c \<noteq> th_other (thrs ! j)) \<Longrightarrow> conts s c = conts t c"
    by (simp_all add: serial_inv_def)
  from same have len: "length thrs = length thrs0" by (simp add: same_threads_def)
  have "set p = {..<length thrs0}" using sp ret len by auto
  moreover have "conts t c = conts s c" for c
  proof (cases "\<forall>j<length thrs. c \<noteq> th_this (thrs ! j) \<and> c \<noteq> th_other (thrs ! j)")
    case True
    from Kh [OF this] show ?thesis by simp
  next
    case False
    then obtain j where j: "j < length thrs" "c \<in> {th_this (thrs ! j), th_other (thrs ! j)}" by auto
    have "\<not> pending thrs0 thrs c" using ret by (auto simp: pending_def)
    from Ke [OF this] have v: "vals s c = vals t c" .
    from Kg [OF j(1)] j(2) have ot: "owner t c = None" by auto
    have os: "owner s c = None"
    proof (cases "owner s c")
      case (Some a)
      from inv_owner_held [OF I j Some] obtain k where "k < length thrs" "c \<in> holds (thrs ! k)" by blast
      with ret [of k] holds_returned [of "thrs ! k"] show ?thesis by simp
    qed simp
    show ?thesis
    proof (cases "conts s c")
      case None
      with v show ?thesis by (simp add: vals_def)
    next
      case (Some a)
      with v obtain b where b: "conts t c = Some b" "m_value b = m_value a"
        by (cases "conts t c") (auto simp: vals_def)
      with Some os ot have "m_mtx a = m_mtx b" by (simp add: owner_conts)
      with b Some show ?thesis by simp
    qed
  qed
  ultimately show ?thesis using dp ser hp by blast
qed

subsection \<open>Threads on their own and schedules\<close>

text \<open>
  A thread of a start, run alone, is the move operation of the sequential model. A
  move of a container into itself is undefined in both models. A schedule that runs
  is a run of the system.
\<close>

lemma run_thread_returned:
  "run_thread n th s = Inr (Returned, s') \<Longrightarrow> run_thread (Suc n) th s = Inr (Returned, s')"
proof (induction n arbitrary: th s)
  case 0
  then show ?case by (simp add: thread_step_def)
next
  case (Suc n)
  from Suc.prems obtain pc1 s1 where
    a: "thread_step th s = Inr (pc1, s1)" "run_thread n (th\<lparr>th_pc := pc1\<rparr>) s1 = Inr (Returned, s')"
    by (auto simp: bind_res_def split: sum.splits)
  from Suc.IH [OF a(2)] a(1) show ?case by simp
qed

lemma initial_thread_runs:
  assumes ini: "initial (s0, thrs0)" and th: "th \<in> set thrs0"
  shows "\<exists>s'. seq_move th s0 = Inr s' \<and> run_thread 7 th s0 = Inr (Returned, s')"
proof -
  from th obtain j where j: "j < length thrs0" "th = thrs0 ! j" by (auto simp: in_set_conv_nth)
  note S = initial_static [OF ini j(1), folded j(2)]
  from S(2) obtain u where u: "conts s0 (th_other th) = Some u" by (auto simp: live_conts)
  with S(6) have mu: "m_mtx u = None" by (simp add: owner_conts)
  have d: "\<exists>d. conts s0 (th_this th) = Some d \<and> m_mtx d = None" if "th_pc th \<noteq> Init_members"
  proof -
    from that S(3) obtain d where d: "conts s0 (th_this th) = Some d" by (auto simp: live_conts)
    with S(5) show ?thesis by (simp add: owner_conts)
  qed
  from seq_move_result [OF S(1) u mu d] obtain s' where s': "seq_move th s0 = Inr s'" by blast
  have "run_thread 7 th s0 = Inr (Returned, s')"
  proof (cases "th_pc th = Init_members")
    case True
    then have e: "th = \<lparr>th_id = th_id th, th_this = th_this th, th_other = th_other th, th_pc = Init_members\<rparr>"
      by (cases th) simp
    from s' True have "unique_ptr_move_ctor (th_id th) (th_this th) (th_other th) s0 = Inr s'"
      by (simp add: seq_move_def)
    from move_ctor_steps [OF this] e show ?thesis by simp
  next
    case False
    with S(3) have "th_this th \<in> live s0" by simp
    with ini th have pc: "th_pc th = Lock_first This_mtx"
      by (auto simp: initial_def list_all_iff split: if_splits)
    then have e: "th = \<lparr>th_id = th_id th, th_this = th_this th, th_other = th_other th, th_pc = Lock_first This_mtx\<rparr>"
      by (cases th) simp
    from s' pc have "unique_ptr_move_assign (th_id th) (th_this th) (th_other th) s0 = Inr s'"
      by (simp add: seq_move_def)
    from run_thread_returned [OF move_assign_steps [OF this]] e show ?thesis
      by (simp add: eval_nat_numeral)
  qed
  with s' show ?thesis by blast
qed

lemma self_move_undefined:
  assumes "conts s c = Some u" and "m_mtx u = None"
  shows "unique_ptr_move_assign t c c s = Inl Undefined_behaviour"
    and "run_thread 2 \<lparr>th_id = t, th_this = c, th_other = c, th_pc = Lock_first This_mtx\<rparr> s
           = Inl Undefined_behaviour"
  using assms
  by (simp_all add: unique_ptr_move_assign_def scoped_lock_ctor_def eval_nat_numeral
      thread_step_def lock_mtx_unfold try_lock_mtx_unfold bind_res_def)

lemma sched_step_sound: "sched_step i x = Some y \<Longrightarrow> sys_step x y"
  by (cases x) (auto simp: sched_step_def intro: sys_step.intros split: if_splits sum.splits prod.splits)

lemma run_schedule_sound: "run_schedule sch x = Some y \<Longrightarrow> sys_step\<^sup>*\<^sup>* x y"
proof (induction sch arbitrary: x)
  case Nil
  then show ?case by simp
next
  case (Cons i sch)
  then obtain z where z: "sched_step i x = Some z" "run_schedule sch z = Some y"
    by (auto split: option.splits)
  from sched_step_sound [OF z(1)] Cons.IH [OF z(2)] show ?case by simp
qed

subsection \<open>The claim\<close>

text \<open>
  C3. Any number of threads run move constructions and move assignments, each between
  two different containers, from a start with free locks (two threads moving in
  opposite directions between one pair included). Each thread run alone from the start
  has returned after seven steps with the result of \<open>unique_ptr_move_ctor\<close> or
  \<open>unique_ptr_move_assign\<close>. In every state the threads can reach together: the system
  is not deadlocked; no thread's next step is undefined; a thread that is about to
  transfer the managed pointer owns both mutexes; a thread that is about to make a
  blocking \<open>lock\<close> call holds neither of its two mutexes, so the two locks are never
  taken by two blocking acquisitions in a row; a thread that waits, waits for a mutex
  whose holder has not returned and can take a step, so there is no cycle of waiting
  threads; unless all threads have returned some thread can take a step; the run can
  be continued to a state where every thread has returned; and when every thread has
  returned, the containers and the heap are those that the move operations of the
  sequential model, run one after the other in some order with every thread once,
  leave behind, so every transfer was made as if alone.
\<close>

theorem concurrent_moves_never_deadlock:
  assumes "initial x" and "sys_step\<^sup>*\<^sup>* x (s, thrs)"
  shows "\<not> deadlocked (s, thrs) \<and> \<not> undefined_next (s, thrs)
     \<and> (\<forall>th \<in> set thrs. th_pc th = Transfer \<longrightarrow>
           owner s (th_this th) = Some (th_id th) \<and> owner s (th_other th) = Some (th_id th))
     \<and> (\<forall>th \<in> set thrs. \<forall>w. th_pc th = Lock_first w \<longrightarrow>
           owner s (th_this th) \<noteq> Some (th_id th) \<and> owner s (th_other th) \<noteq> Some (th_id th))
     \<and> (\<forall>th \<in> set thrs. thread_step th s = Inl Blocks \<longrightarrow>
           (\<exists>w. \<exists>th' \<in> set thrs. th_pc th = Lock_first w
              \<and> owner s (mtx_of w th) = Some (th_id th')
              \<and> th_pc th' \<noteq> Returned \<and> (\<exists>pc' s'. thread_step th' s = Inr (pc', s'))))
     \<and> (list_all (\<lambda>th. th_pc th = Returned) thrs \<or> (\<exists>y. sys_step (s, thrs) y))
     \<and> (\<exists>y. sys_step\<^sup>*\<^sup>* (s, thrs) y \<and> all_returned y)
     \<and> (all_returned (s, thrs) \<longrightarrow>
           (\<exists>p t. distinct p \<and> set p = {..<length (snd x)}
              \<and> serial (map (\<lambda>i. snd x ! i) p) (fst x) = Inr t
              \<and> conts t = conts s \<and> heap t = heap s))
     \<and> (\<forall>th \<in> set (snd x). \<exists>s'. seq_move th (fst x) = Inr s'
           \<and> run_thread 7 th (fst x) = Inr (Returned, s'))"
proof -
  from assms have I: "inv (s, thrs)" by (auto intro: inv_reachable initial_inv)
  note P = inv_progress [OF I]
  have "list_all (\<lambda>th. th_pc th = Returned) thrs \<or> (\<exists>y. sys_step (s, thrs) y)"
  proof (cases "list_all (\<lambda>th. th_pc th = Returned) thrs")
    case True
    then show ?thesis by simp
  next
    case False
    then have ex: "list_ex (\<lambda>th. th_pc th \<noteq> Returned) thrs"
      by (auto simp: list_all_length list_ex_length)
    with P(1) obtain i where i: "i < length thrs" "th_pc (thrs ! i) \<noteq> Returned"
      "thread_step (thrs ! i) s \<noteq> Inl Blocks"
      by (auto simp: deadlocked_def list_all_length)
    from I i(1) have "thread_ok s (thrs ! i)" by (auto simp: inv_def)
    from thread_step_not_undefined [OF this] i(3)
    obtain pc' s' where "thread_step (thrs ! i) s = Inr (pc', s')"
      using thread_step_no_bad_alloc [of "thrs ! i" s]
      by (cases "thread_step (thrs ! i) s") (auto intro: fault.exhaust)
    from step_thread [OF i(1,2) this] show ?thesis by blast
  qed
  moreover have "\<exists>y. sys_step\<^sup>*\<^sup>* (s, thrs) y \<and> all_returned y"
    by (rule can_complete [OF I])
  moreover have "all_returned (s, thrs) \<longrightarrow>
           (\<exists>p t. distinct p \<and> set p = {..<length (snd x)}
              \<and> serial (map (\<lambda>i. snd x ! i) p) (fst x) = Inr t
              \<and> conts t = conts s \<and> heap t = heap s)"
    using completed_serial [of "fst x" "snd x" s thrs] assms by simp
  moreover have "\<forall>th \<in> set (snd x). \<exists>s'. seq_move th (fst x) = Inr s'
           \<and> run_thread 7 th (fst x) = Inr (Returned, s')"
    using initial_thread_runs [of "fst x" "snd x"] assms(1) by simp
  ultimately show ?thesis using P by blast
qed

lemma reverse_moves_initial: "initial reverse_moves"
  by (simp add: initial_def reverse_moves_def owner_def live_def two_containers_A two_containers_B
      dom_def)

lemma crossed_reachable: "sys_step\<^sup>*\<^sup>* reverse_moves crossed"
proof -
  let ?T1 = "\<lparr>th_id = 5, th_this = 20, th_other = 10, th_pc = Lock_first This_mtx\<rparr>"
  let ?T2 = "\<lparr>th_id = 6, th_this = 10, th_other = 20, th_pc = Lock_first This_mtx\<rparr>"
  let ?s1 = "two_containers
        \<lparr>conts := (conts two_containers)
           (20 \<mapsto> \<lparr>m_mtx = Some 5, m_value = \<lparr>ptr = Some 8, del = Custom_deleter 5\<rparr>\<rparr>),
         trace := [Acquire 5 20]\<rparr>"
  have "sys_step (two_containers, [?T1, ?T2])
          (?s1, [?T1, ?T2][0 := ([?T1, ?T2] ! 0)\<lparr>th_pc := Try_second This_mtx\<rparr>])"
    by (rule step_thread)
      (simp_all add: thread_step_def lock_mtx_unfold two_containers_B two_containers_trace upd_simps)
  moreover
  have "sys_step (?s1, [?T1\<lparr>th_pc := Try_second This_mtx\<rparr>, ?T2])
          (fst crossed, [?T1\<lparr>th_pc := Try_second This_mtx\<rparr>, ?T2]
             [1 := ([?T1\<lparr>th_pc := Try_second This_mtx\<rparr>, ?T2] ! 1)\<lparr>th_pc := Try_second This_mtx\<rparr>])"
    by (rule step_thread)
      (simp_all add: thread_step_def lock_mtx_unfold two_containers_A two_containers_trace
        upd_simps crossed_def fun_upd_twist)
  ultimately show ?thesis
    by (simp add: reverse_moves_def crossed_def)
qed

text \<open>
  The state the two threads would be stuck in if each, holding the mutex of its own
  destination, called the blocking \<open>lock\<close> on the other mutex: it is deadlocked. The
  threads of the model are never at this point of the run.
\<close>

lemma hold_and_wait_deadlocked: "deadlocked hold_and_wait"
  by (simp add: deadlocked_def hold_and_wait_def crossed_def thread_step_def lock_mtx_unfold)

lemma crossed_completes: "run_schedule [0, 0, 1, 1, 1, 1, 0, 0, 0, 0, 0] crossed = Some completed"
  by (simp add: crossed_def completed_def sched_step_def thread_step_def lock_mtx_unfold
      unlock_mtx_unfold try_lock_mtx_unfold move_m_value_def std_release_def std_reset_def
      std_get_def Let_def two_containers_A two_containers_B two_containers_trace upd_simps
      fun_upd_twist)

lemma completed_reachable: "sys_step\<^sup>*\<^sup>* reverse_moves completed"
  using crossed_reachable run_schedule_sound [OF crossed_completes] by simp

lemma serial_reverse_moves:
  "\<exists>t. serial [snd reverse_moves ! 1, snd reverse_moves ! 0] (fst reverse_moves) = Inr t
     \<and> conts t = conts (fst completed)"
  by (simp add: reverse_moves_def completed_def seq_move_def
      move_assign_result [OF _ two_containers_A two_containers_B]
      move_assign_result [where s = "s\<lparr>conts := c, trace := tr\<rparr>" for s c tr]
      fun_upd_twist)

theorem concurrent_moves_never_deadlock_witness:
  "initial reverse_moves \<and> sys_step\<^sup>*\<^sup>* reverse_moves crossed
   \<and> lock_mtx 5 10 (fst crossed) = Inl Blocks \<and> lock_mtx 6 20 (fst crossed) = Inl Blocks
   \<and> deadlocked hold_and_wait
   \<and> \<not> deadlocked crossed \<and> \<not> undefined_next crossed \<and> (\<exists>y. sys_step crossed y)
   \<and> run_schedule [0, 0, 1, 1, 1, 1, 0, 0, 0, 0, 0] crossed = Some completed
   \<and> sys_step\<^sup>*\<^sup>* reverse_moves completed \<and> all_returned completed
   \<and> get 10 (fst completed) = Inr (None, fst completed)
   \<and> get 20 (fst completed) = Inr (Some 8, fst completed)
   \<and> (\<exists>t. serial [snd reverse_moves ! 1, snd reverse_moves ! 0] (fst reverse_moves) = Inr t
         \<and> conts t = conts (fst completed))
   \<and> (\<exists>p t. distinct p \<and> set p = {..<2}
         \<and> serial (map (\<lambda>i. snd reverse_moves ! i) p) (fst reverse_moves) = Inr t
         \<and> conts t = conts (fst completed) \<and> heap t = heap (fst completed))"
proof -
  have r: "sys_step\<^sup>*\<^sup>* reverse_moves (fst crossed, snd crossed)"
    using crossed_reachable by simp
  have r2: "sys_step\<^sup>*\<^sup>* reverse_moves (fst completed, snd completed)"
    using completed_reachable by simp
  have nr: "\<not> list_all (\<lambda>th. th_pc th = Returned) (snd crossed)"
    by (simp add: crossed_def)
  have ar: "all_returned (fst completed, snd completed)"
    by (simp add: all_returned_def completed_def)
  have b: "lock_mtx 5 10 (fst crossed) = Inl Blocks" "lock_mtx 6 20 (fst crossed) = Inl Blocks"
    by (simp_all add: crossed_def lock_mtx_unfold)
  have g: "get 10 (fst completed) = Inr (None, fst completed)"
    "get 20 (fst completed) = Inr (Some 8, fst completed)"
    by (simp_all add: get_def completed_def std_get_def)
  have l: "length (snd reverse_moves) = 2" by (simp add: reverse_moves_def)
  from concurrent_moves_never_deadlock [OF reverse_moves_initial r] concurrent_moves_never_deadlock [OF reverse_moves_initial r2] nr ar l
  show ?thesis
    using reverse_moves_initial crossed_reachable hold_and_wait_deadlocked crossed_completes
      completed_reachable serial_reverse_moves b g
    by simp
qed

end
